theory Spec2Isabelle
  imports Complex_Main "HOL-Library.AList"
begin

section \<open>Data model\<close>

text \<open>
  Money is Python's \<open>Decimal\<close>; it is modelled by exact rationals (the 28-digit
  precision of the decimal context is not modelled). Datetimes are points on the integer
  time line. A user is identified by a number; \<open>None\<close> is Python's \<open>None\<close>
  (an anonymous basket owner, a missing argument).
\<close>

type_synonym money = rat
type_synonym datetime = int
type_synonym user = nat
type_synonym product = nat

text \<open>A product range is known here only through \<open>Range.contains\<close>.\<close>

type_synonym range = "product \<Rightarrow> bool"

datatype error =
    NotImplementedError
  | RuntimeError
  | AttributeError
  | ZeroDivisionError
  | IndexError
  | ValueError

text \<open>Sequencing of fallible steps: the first exception raised propagates.\<close>

definition bindE :: "error + 'a \<Rightarrow> ('a \<Rightarrow> error + 'b) \<Rightarrow> error + 'b" where
  "bindE m f = (case m of Inl e \<Rightarrow> Inl e | Inr x \<Rightarrow> f x)"

subsection \<open>results.py: application results\<close>

text \<open>
  \<open>ApplicationResult\<close> is the base class (\<open>is_final = is_successful = False\<close>,
  \<open>fee = 0\<close>); \<open>BasketFee\<close> overrides \<open>is_final\<close> with \<open>True\<close> and
  \<open>is_successful\<close> with \<open>fee > 0\<close>.
\<close>

datatype application_result = ApplicationResult | BasketFee money

fun is_final :: "application_result \<Rightarrow> bool" where
  "is_final ApplicationResult = False"
| "is_final (BasketFee amount) = True"

fun is_successful :: "application_result \<Rightarrow> bool" where
  "is_successful ApplicationResult = False"
| "is_successful (BasketFee amount) = (amount > 0)"

fun result_fee :: "application_result \<Rightarrow> money" where
  "result_fee ApplicationResult = 0"
| "result_fee (BasketFee amount) = amount"

fun result_description :: "application_result \<Rightarrow> string option" where
  "result_description r = None"

definition ZERO_FEE :: application_result where
  "ZERO_FEE = BasketFee 0"

subsection \<open>models.py: conditions, fees, rules\<close>

text \<open>
  The \<open>type\<close> fields are character fields. \<open>proxy()\<close> maps the type through
  \<open>klassmap\<close> and raises \<open>RuntimeError\<close> on any other string; custom proxy classes
  (\<open>proxy_class\<close>, loaded dynamically) are outside the model.
\<close>

record condition =
  cond_type :: string
  cond_range :: "range option"
  cond_value :: money

record fee =
  fee_pk :: nat
  fee_range :: "range option"
  fee_type :: string
  fee_value :: money

datatype condition_class = CountCondition | ValueCondition | CoverageCondition
datatype fee_class = PercentageFee | AbsoluteFee

definition condition_proxy :: "condition \<Rightarrow> error + condition_class" where
  "condition_proxy c =
     (if cond_type c = ''Count'' then Inr CountCondition
      else if cond_type c = ''Value'' then Inr ValueCondition
      else if cond_type c = ''Coverage'' then Inr CoverageCondition
      else Inl RuntimeError)"

definition fee_proxy :: "fee \<Rightarrow> error + fee_class" where
  "fee_proxy f =
     (if fee_type f = ''Percentage'' then Inr PercentageFee
      else if fee_type f = ''Absolute'' then Inr AbsoluteFee
      else Inl RuntimeError)"

datatype status = Open | Suspended | Consumed

text \<open>
  \<open>ConditionalFee\<close>. The \<open>PositiveIntegerField\<close>s are naturals; a nullable field
  is an option.
\<close>

record conditional_fee =
  rule_id :: nat
  name :: string
  offer_type :: string
  status :: status
  condition :: condition
  fee :: fee
  start_datetime :: "datetime option"
  end_datetime :: "datetime option"
  max_global_applications :: "nat option"
  max_user_applications :: "nat option"
  max_basket_applications :: "nat option"
  max_fee :: "money option"
  total_fee :: money
  num_applications :: nat
  num_orders :: nat

definition is_open :: "conditional_fee \<Rightarrow> bool" where
  "is_open self = (status self = Open)"

definition is_suspended :: "conditional_fee \<Rightarrow> bool" where
  "is_suspended self = (status self = Suspended)"

text \<open>\<open>get_num_user_applications\<close> raises before anything else.\<close>

definition get_num_user_applications :: "conditional_fee \<Rightarrow> user \<Rightarrow> error + int" where
  "get_num_user_applications self u = Inl NotImplementedError"

text \<open>
  Python truthiness of the nullable limits: \<open>None\<close> and zero are both false.
\<close>

definition truthy_nat :: "nat option \<Rightarrow> bool" where
  "truthy_nat v = (case v of None \<Rightarrow> False | Some n \<Rightarrow> n \<noteq> 0)"

definition truthy_money :: "money option \<Rightarrow> bool" where
  "truthy_money v = (case v of None \<Rightarrow> False | Some a \<Rightarrow> a \<noteq> 0)"

text \<open>Python's \<open>min\<close> of a list; the list \<open>limits\<close> always holds 10000.\<close>

fun py_min :: "int list \<Rightarrow> error + int" where
  "py_min [] = Inl ValueError"
| "py_min (x # xs) = Inr (fold min xs x)"

definition get_max_applications :: "conditional_fee \<Rightarrow> user option \<Rightarrow> error + int" where
  "get_max_applications self usr =
     (if truthy_money (max_fee self) \<and> total_fee self \<ge> the (max_fee self) then Inr 0
      else
        bindE (if truthy_nat (max_user_applications self) \<and> usr \<noteq> None
               then bindE (get_num_user_applications self (the usr))
                      (\<lambda>used. Inr ([10000] @
                         [max 0 (int (the (max_user_applications self)) - used)]))
               else Inr [10000])
          (\<lambda>limits.
             let limits = (if truthy_nat (max_basket_applications self)
                           then limits @ [int (the (max_basket_applications self))]
                           else limits);
                 limits = (if truthy_nat (max_global_applications self)
                           then limits @
                             [max 0 (int (the (max_global_applications self))
                                     - int (num_applications self))]
                           else limits)
             in py_min limits))"

text \<open>
  \<open>save\<close>: the status is recomputed unless the rule is suspended; writing the row to the
  database is not modelled. \<open>get_max_applications()\<close> is called with no user.
\<close>

definition save :: "conditional_fee \<Rightarrow> error + conditional_fee" where
  "save self =
     (if \<not> is_suspended self
      then bindE (get_max_applications self None)
             (\<lambda>m. if m = 0 then Inr (self\<lparr>status := Consumed\<rparr>)
                  else Inr (self\<lparr>status := Open\<rparr>))
      else Inr self)"

definition suspend :: "conditional_fee \<Rightarrow> error + conditional_fee" where
  "suspend self = save (self\<lparr>status := Suspended\<rparr>)"

definition unsuspend :: "conditional_fee \<Rightarrow> error + conditional_fee" where
  "unsuspend self = save (self\<lparr>status := Open\<rparr>)"

text \<open>
  \<open>is_available\<close>: \<open>now\<close> is the clock reading used when no test date is given. A
  datetime object is always true, so \<open>if self.start_datetime\<close> tests for \<open>None\<close>.
\<close>

definition is_available ::
  "conditional_fee \<Rightarrow> user option \<Rightarrow> datetime option \<Rightarrow> datetime \<Rightarrow> error + bool" where
  "is_available self usr test_date now =
     (if is_suspended self then Inr False
      else
        let test_date = (case test_date of None \<Rightarrow> now | Some t \<Rightarrow> t);
            predicates = [];
            predicates = (case start_datetime self of
                            Some s \<Rightarrow> predicates @ [s > test_date]
                          | None \<Rightarrow> predicates);
            predicates = (case end_datetime self of
                            Some e \<Rightarrow> predicates @ [test_date > e]
                          | None \<Rightarrow> predicates)
        in if list_ex (\<lambda>p. p) predicates then Inr False
           else bindE (get_max_applications self usr) (\<lambda>m. Inr (m > 0)))"

text \<open>
  \<open>Applicator.get_site_fees\<close>: the query filter, as a predicate on one row at the
  cutoff time. A comparison with a null column is not satisfied.
\<close>

definition site_fee_selected :: "conditional_fee \<Rightarrow> datetime \<Rightarrow> bool" where
  "site_fee_selected r cutoff =
     (let date_based =
            ((case start_datetime r of Some s \<Rightarrow> s \<le> cutoff | None \<Rightarrow> False) \<and>
             ((case end_datetime r of Some e \<Rightarrow> e \<ge> cutoff | None \<Rightarrow> False) \<or>
              end_datetime r = None));
          nondate_based = (start_datetime r = None \<and> end_datetime r = None)
      in (date_based \<or> nondate_based) \<and> offer_type r = ''Site'' \<and> status r = Open)"

subsection \<open>Basket lines and baskets\<close>

text \<open>
  A basket line is a database row: two line objects are equal (\<open>==\<close>) when their
  primary keys are, and the lines of one basket have distinct keys. The attributes
  \<open>_fee_amount\<close> and \<open>_fee_quantity\<close> are attached to a line object on first use;
  \<open>None\<close> is "the object has no such attribute".
\<close>

record line =
  line_id :: nat
  line_product :: product
  quantity :: nat
  unit_effective_price :: money
  quantity_without_discount :: int
  attr_fee_amount :: "money option"
  attr_fee_quantity :: "int option"

definition line_eq :: "line \<Rightarrow> line \<Rightarrow> bool" where
  "line_eq l l' = (line_id l = line_id l')"

text \<open>
  \<open>FeeApplications\<close>: a dictionary from rule id to an application entry. Python
  dictionaries keep insertion order, so it is an association list.
\<close>

record application =
  app_fee :: conditional_fee
  app_result :: application_result
  app_name :: string
  app_description :: "string option"
  freq :: int
  amount :: money

type_synonym fee_applications = "(nat \<times> application) list"

text \<open>
  The basket: its owner, its line objects (\<open>all_lines()\<close> hands out the same objects at
  every call), the counter \<open>total_test\<close>, and the attributes \<open>_total_fees_amount\<close>,
  \<open>_fees\<close> and \<open>fee_applications\<close>, absent until first set.
\<close>

record basket =
  owner :: "user option"
  all_lines :: "line list"
  total_test :: int
  attr_total_fees_amount :: "money option"
  attr_fees :: "fee list option"
  fee_applications :: "fee_applications option"

text \<open>
  The environment of an evaluation: the optional setting
  \<open>OSCAR_OFFER_ROUNDING_FUNCTION\<close>, and \<open>is_satisfied\<close> of the condition classes
  (module \<open>conditions\<close>, which is not part of the sources at hand): a parameter, read as
  a test of the resolved condition class, the rule and the basket.
\<close>

record env =
  OSCAR_OFFER_ROUNDING_FUNCTION :: "(money \<Rightarrow> money) option"
  is_satisfied :: "condition_class \<Rightarrow> conditional_fee \<Rightarrow> basket \<Rightarrow> bool"

subsection \<open>fees.py: annotating lines and baskets\<close>

definition apply_fee_to_line :: "line \<Rightarrow> money \<Rightarrow> int \<Rightarrow> line" where
  "apply_fee_to_line l line_fee qty =
     (let l = (if attr_fee_amount l = None then l\<lparr>attr_fee_amount := Some 0\<rparr> else l);
          l = (if attr_fee_quantity l = None then l\<lparr>attr_fee_quantity := Some 0\<rparr> else l);
          l = l\<lparr>attr_fee_amount := Some (the (attr_fee_amount l) + line_fee)\<rparr>
      in l\<lparr>attr_fee_quantity := Some (the (attr_fee_quantity l) + qty)\<rparr>)"

text \<open>
  The call \<open>apply_fee_to_line(line, ...)\<close> mutates a line object of the basket: the
  object with the key of \<open>line\<close>.
\<close>

definition update_line :: "basket \<Rightarrow> line \<Rightarrow> (line \<Rightarrow> line) \<Rightarrow> basket" where
  "update_line b l f =
     b\<lparr>all_lines := map (\<lambda>x. if line_id x = line_id l then f x else x) (all_lines b)\<rparr>"

definition apply_fee_to_basket :: "basket \<Rightarrow> fee \<Rightarrow> money \<Rightarrow> int \<Rightarrow> basket" where
  "apply_fee_to_basket b f fees_amount qty =
     (let b = (if attr_total_fees_amount b = None
               then b\<lparr>attr_total_fees_amount := Some 0\<rparr> else b);
          b = (if attr_fees b = None then b\<lparr>attr_fees := Some []\<rparr> else b);
          b = b\<lparr>attr_fees := Some (the (attr_fees b) @ [f])\<rparr>
      in b\<lparr>attr_total_fees_amount := Some (the (attr_total_fees_amount b) + fees_amount)\<rparr>)"

subsection \<open>models.py: Fee.get_applicable_lines and Fee.round\<close>

fun applicable_loop ::
  "range option \<Rightarrow> line list \<Rightarrow> (money \<times> line) list \<Rightarrow> error + (money \<times> line) list" where
  "applicable_loop rng [] line_tuples = Inr line_tuples"
| "applicable_loop rng (l # ls) line_tuples =
     (case rng of
        None \<Rightarrow> Inl AttributeError
      | Some contains \<Rightarrow>
          if \<not> contains (line_product l) then applicable_loop rng ls line_tuples
          else
            let price = unit_effective_price l in
            if price = 0 then applicable_loop rng ls line_tuples
            else if quantity_without_discount l = 0 then applicable_loop rng ls line_tuples
            else applicable_loop rng ls (line_tuples @ [(price, l)]))"

text \<open>
  \<open>sorted(line_tuples, key=operator.itemgetter(0))\<close> is a stable sort on the price;
  \<open>sort_key\<close> is the stable insertion sort.
\<close>

definition get_applicable_lines ::
  "fee \<Rightarrow> conditional_fee \<Rightarrow> basket \<Rightarrow> range option \<Rightarrow> error + (money \<times> line) list" where
  "get_applicable_lines self offer b rng =
     (let rng = (if rng = None then fee_range self else rng) in
      bindE (applicable_loop rng (all_lines b) [])
        (\<lambda>line_tuples. Inr (sort_key fst line_tuples)))"

text \<open>\<open>amount.quantize(D('.01'), ROUND_DOWN)\<close>: truncation towards zero at two places.\<close>

definition quantize_round_down :: "money \<Rightarrow> money" where
  "quantize_round_down a =
     (if a \<ge> 0 then of_int \<lfloor>a * 100\<rfloor> / 100 else of_int \<lceil>a * 100\<rceil> / 100)"

definition fee_round :: "env \<Rightarrow> money \<Rightarrow> money" where
  "fee_round env a =
     (case OSCAR_OFFER_ROUNDING_FUNCTION env of
        Some f \<Rightarrow> f a
      | None \<Rightarrow> quantize_round_down a)"

text \<open>\<open>int(condition.value)\<close> truncates a decimal towards zero.\<close>

definition py_int :: "money \<Rightarrow> int" where
  "py_int a = (if a \<ge> 0 then \<lfloor>a\<rfloor> else \<lceil>a\<rceil>)"

subsection \<open>fees.py: AbsoluteFee.apply\<close>

text \<open>
  \<open>fees.py\<close> imports \<open>conditions\<close> from \<open>oscar.apps.offer\<close>, so the test
  \<open>isinstance(condition, conditions.CoverageCondition)\<close> is against Oscar's class. The
  conditions that reach \<open>AbsoluteFee.apply\<close> come from \<open>Condition.proxy()\<close>, which builds
  the proxy classes of this package's own \<open>Condition\<close> model (module \<open>conditions\<close> of
  this package); none of them is an instance of Oscar's class, so the test is false for
  each of them, the package's \<open>CoverageCondition\<close> included.
\<close>

fun isinstance_oscar_coverage :: "condition_class \<Rightarrow> bool" where
  "isinstance_oscar_coverage CountCondition = False"
| "isinstance_oscar_coverage ValueCondition = False"
| "isinstance_oscar_coverage CoverageCondition = False"

text \<open>
  The first loop: the lines to consume. \<open>coverage\<close> is the value of the test
  \<open>isinstance(condition, conditions.CoverageCondition)\<close>.
\<close>

fun cover_loop ::
  "bool \<Rightarrow> int \<Rightarrow> (money \<times> line) list \<Rightarrow> int \<Rightarrow> (money \<times> line \<times> int) list
     \<Rightarrow> int \<times> (money \<times> line \<times> int) list" where
  "cover_loop coverage num_permitted [] num_affected covered_lines =
     (num_affected, covered_lines)"
| "cover_loop coverage num_permitted ((price, l) # rest) num_affected covered_lines =
     (let quantity_affected = (if coverage then 1 else int (quantity l));
          num_affected = num_affected + quantity_affected;
          covered_lines = covered_lines @ [(price, l, quantity_affected)]
      in if num_affected \<ge> num_permitted then (num_affected, covered_lines)
         else cover_loop coverage num_permitted rest num_affected covered_lines)"

text \<open>
  The second loop: the fee of each covered line. The division of two decimals raises when
  the divisor is zero. The result carries the final \<open>fee_applied\<close>.
\<close>

fun allocate_loop ::
  "env \<Rightarrow> money \<Rightarrow> int \<Rightarrow> line \<Rightarrow> (money \<times> line \<times> int) list \<Rightarrow> money \<Rightarrow> basket
     \<Rightarrow> error + (money \<times> basket)" where
  "allocate_loop env fee_amount num_affected last_line [] fee_applied b =
     Inr (fee_applied, b)"
| "allocate_loop env fee_amount num_affected last_line ((price, l, qty) # rest) fee_applied b =
     bindE (if line_eq l last_line then Inr (fee_amount - fee_applied)
            else if num_affected = 0 then Inl ZeroDivisionError
            else Inr (fee_round env ((fee_amount * of_int qty) / of_int num_affected)))
       (\<lambda>line_fee.
          allocate_loop env fee_amount num_affected last_line rest (fee_applied + line_fee)
            (update_line b l (\<lambda>x. apply_fee_to_line x line_fee qty)))"

text \<open>\<open>covered_lines[-1]\<close>\<close>

definition py_last :: "'a list \<Rightarrow> error + 'a" where
  "py_last xs = (if xs = [] then Inl IndexError else Inr (last xs))"

definition absolute_fee_apply ::
  "env \<Rightarrow> fee \<Rightarrow> basket \<Rightarrow> condition_class \<Rightarrow> condition \<Rightarrow> conditional_fee
     \<Rightarrow> money option \<Rightarrow> money option \<Rightarrow> error + (application_result \<times> basket)" where
  "absolute_fee_apply env self b klass cond offer fee_amount max_total_fee =
     (let fee_amount = (case fee_amount of None \<Rightarrow> fee_value self | Some a \<Rightarrow> a);
          fee_amount = (case max_total_fee of None \<Rightarrow> fee_amount
                        | Some m \<Rightarrow> min fee_amount m)
      in if fee_amount = 0 then Inr (ZERO_FEE, b)
         else
           bindE (get_applicable_lines self offer b (cond_range cond))
             (\<lambda>line_tuples.
                if line_tuples = [] then Inr (ZERO_FEE, b)
                else
                  let num_permitted = py_int (cond_value cond);
                      (num_affected, covered_lines) =
                         cover_loop (isinstance_oscar_coverage klass) num_permitted
                           line_tuples 0 []
                  in bindE (py_last covered_lines)
                       (\<lambda>(price, last_line, qty).
                          bindE (allocate_loop env fee_amount num_affected last_line
                                   covered_lines 0 b)
                            (\<lambda>(fee_applied, b).
                               Inr (BasketFee fee_amount,
                                    apply_fee_to_basket b self fee_amount 1)))))"

definition percentage_fee_apply ::
  "env \<Rightarrow> fee \<Rightarrow> basket \<Rightarrow> condition_class \<Rightarrow> condition \<Rightarrow> conditional_fee
     \<Rightarrow> error + (application_result \<times> basket)" where
  "percentage_fee_apply env self b klass cond offer = Inl NotImplementedError"

subsection \<open>models.py: ConditionalFee.apply_fee\<close>

definition is_condition_satisfied :: "env \<Rightarrow> conditional_fee \<Rightarrow> basket \<Rightarrow> error + bool" where
  "is_condition_satisfied env self b =
     bindE (condition_proxy (condition self)) (\<lambda>klass. Inr (is_satisfied env klass self b))"

definition apply_fee ::
  "env \<Rightarrow> conditional_fee \<Rightarrow> basket \<Rightarrow> error + (application_result \<times> basket)" where
  "apply_fee env self b =
     bindE (is_condition_satisfied env self b)
       (\<lambda>sat.
          if \<not> sat then Inr (ZERO_FEE, b)
          else
            bindE (fee_proxy (fee self))
              (\<lambda>fklass.
                 bindE (condition_proxy (condition self))
                   (\<lambda>klass.
                      case fklass of
                        PercentageFee \<Rightarrow>
                          percentage_fee_apply env (fee self) b klass (condition self) self
                      | AbsoluteFee \<Rightarrow>
                          absolute_fee_apply env (fee self) b klass (condition self) self
                            None None)))"

subsection \<open>results.py: FeeApplications.add\<close>

definition add ::
  "fee_applications \<Rightarrow> conditional_fee \<Rightarrow> application_result \<Rightarrow> fee_applications" where
  "add applications f result =
     (let applications =
            (if map_of applications (rule_id f) = None
             then AList.update (rule_id f)
                    \<lparr>app_fee = f, app_result = result, app_name = name f,
                     app_description = result_description result, freq = 0, amount = 0\<rparr>
                    applications
             else applications);
          applications =
            AList.update (rule_id f)
              ((the (map_of applications (rule_id f)))
                 \<lparr>amount := amount (the (map_of applications (rule_id f))) + result_fee result\<rparr>)
              applications
      in AList.update (rule_id f)
           ((the (map_of applications (rule_id f)))
              \<lparr>freq := freq (the (map_of applications (rule_id f))) + 1\<rparr>)
           applications)"

subsection \<open>applicator.py: Applicator.apply_fees\<close>

text \<open>
  The \<open>while\<close> loop of one rule re-reads \<open>fee.get_max_applications(basket.owner)\<close>
  at every turn. An application never changes the owner of the basket, so the bound is
  the same at every turn and the loop ends.
\<close>

lemma bindE_cong [fundef_cong]:
  "m = m' \<Longrightarrow> (\<And>x. m' = Inr x \<Longrightarrow> f x = f' x) \<Longrightarrow> bindE m f = bindE m' f'"
  by (auto simp: bindE_def split: sum.splits)

lemma bindE_Inr_iff:
  "bindE m f = Inr y \<longleftrightarrow> (\<exists>x. m = Inr x \<and> f x = Inr y)"
  by (cases m) (simp_all add: bindE_def)

lemma bindE_simps [simp]: "bindE (Inl e) f = Inl e" "bindE (Inr x) f = f x"
  by (simp_all add: bindE_def)

lemma owner_update_line [simp]: "owner (update_line b l f) = owner b"
  by (simp add: update_line_def)

lemma owner_apply_fee_to_basket [simp]: "owner (apply_fee_to_basket b f a q) = owner b"
  by (simp add: apply_fee_to_basket_def Let_def)

lemma allocate_loop_owner:
  "allocate_loop env fa na ll cs applied b = Inr (applied', b') \<Longrightarrow> owner b' = owner b"
proof (induction cs arbitrary: applied b)
  case Nil
  then show ?case by simp
next
  case (Cons c cs)
  obtain price l qty where c: "c = (price, l, qty)" by (cases c) auto
  from Cons.prems obtain line_fee where
    "allocate_loop env fa na ll cs (applied + line_fee)
       (update_line b l (\<lambda>x. apply_fee_to_line x line_fee qty)) = Inr (applied', b')"
    by (auto simp: c bindE_Inr_iff)
  from Cons.IH [OF this] show ?case by simp
qed

lemma absolute_fee_apply_owner:
  "absolute_fee_apply env self b klass cond offer fa mt = Inr (res, b') \<Longrightarrow> owner b' = owner b"
  by (auto simp: absolute_fee_apply_def Let_def bindE_Inr_iff split: if_splits prod.splits
      dest: allocate_loop_owner)

lemma apply_fee_owner:
  "apply_fee env self b = Inr (res, b') \<Longrightarrow> owner b' = owner b"
proof -
  assume a: "apply_fee env self b = Inr (res, b')"
  show ?thesis
  proof (cases "is_condition_satisfied env self b = Inr True")
    case False
    with a show ?thesis
      by (auto simp: apply_fee_def bindE_Inr_iff split: if_splits)
  next
    case True
    with a obtain fklass klass where
      k: "fee_proxy (fee self) = Inr fklass" "condition_proxy (condition self) = Inr klass"
      and r: "(case fklass of
                 PercentageFee \<Rightarrow>
                   percentage_fee_apply env (fee self) b klass (condition self) self
               | AbsoluteFee \<Rightarrow>
                   absolute_fee_apply env (fee self) b klass (condition self) self None None)
              = Inr (res, b')"
      by (auto simp: apply_fee_def bindE_Inr_iff)
    from r show ?thesis
      by (cases fklass) (auto simp: percentage_fee_apply_def dest: absolute_fee_apply_owner)
  qed
qed

function apply_loop ::
  "env \<Rightarrow> conditional_fee \<Rightarrow> int \<Rightarrow> basket \<Rightarrow> fee_applications
     \<Rightarrow> error + (int \<times> basket \<times> fee_applications)" where
  "apply_loop env f num_apps b applications =
     bindE (get_max_applications f (owner b))
       (\<lambda>max_applications.
          if num_apps < max_applications then
            bindE (apply_fee env f b)
              (\<lambda>(result, b).
                 let num_apps = num_apps + 1 in
                 if \<not> is_successful result then Inr (num_apps, b, applications)
                 else
                   let applications = add applications f result;
                       b = b\<lparr>total_test := total_test b + 1\<rparr>
                   in if is_final result then Inr (num_apps, b, applications)
                      else apply_loop env f num_apps b applications)
          else Inr (num_apps, b, applications))"
  by pat_completeness auto
termination apply_loop
proof (relation "measure (\<lambda>(env, f, n, b, apps).
          case get_max_applications f (owner b) of Inr m \<Rightarrow> nat (m - n) | Inl e \<Rightarrow> 0)",
       goal_cases)
  case 1
  show ?case by simp
next
  case (2 env f n b apps m x res b' n' apps' b'')
  then show ?case
    by (auto dest!: apply_fee_owner)
qed

declare apply_loop.simps [simp del]

fun apply_fees_loop ::
  "env \<Rightarrow> conditional_fee list \<Rightarrow> basket \<Rightarrow> fee_applications
     \<Rightarrow> error + (basket \<times> fee_applications)" where
  "apply_fees_loop env [] b applications = Inr (b, applications)"
| "apply_fees_loop env (f # fees) b applications =
     bindE (apply_loop env f 0 b applications)
       (\<lambda>(num_apps, b, applications). apply_fees_loop env fees b applications)"

definition apply_fees :: "env \<Rightarrow> basket \<Rightarrow> conditional_fee list \<Rightarrow> error + basket" where
  "apply_fees env b fees =
     bindE (apply_fees_loop env fees b [])
       (\<lambda>(b, applications). Inr (b\<lparr>fee_applications := Some applications\<rparr>))"

text \<open>
  \<open>Applicator.get_fees\<close>: session and user fees are empty lists; the site fees are the
  rows of the rule table that pass the query filter at the clock reading \<open>now\<close>.
\<close>

definition get_site_fees :: "conditional_fee list \<Rightarrow> datetime \<Rightarrow> conditional_fee list" where
  "get_site_fees table now = filter (\<lambda>r. site_fee_selected r now) table"

definition get_fees :: "conditional_fee list \<Rightarrow> datetime \<Rightarrow> conditional_fee list" where
  "get_fees table now = [] @ [] @ get_site_fees table now"

definition applicator_apply ::
  "env \<Rightarrow> conditional_fee list \<Rightarrow> datetime \<Rightarrow> basket \<Rightarrow> error + basket" where
  "applicator_apply env table now b = apply_fees env b (get_fees table now)"

section \<open>Specification-side definitions and concrete inputs\<close>

text \<open>
  The limits that enter the minimum of \<open>get_max_applications\<close>, in the words of the
  specification: the ceiling 10000, the basket limit and the remaining global allowance,
  each present only when its field holds a nonzero number.
\<close>

definition spec_limits :: "conditional_fee \<Rightarrow> int set" where
  "spec_limits r =
     {10000}
     \<union> (case max_basket_applications r of
          Some mb \<Rightarrow> if mb \<noteq> 0 then {int mb} else {} | None \<Rightarrow> {})
     \<union> (case max_global_applications r of
          Some mg \<Rightarrow> if mg \<noteq> 0 then {max 0 (int mg - int (num_applications r))} else {}
        | None \<Rightarrow> {})"

text \<open>A site rule with no limits: an absolute fee of 1.00 under a count condition.\<close>

definition example_rule :: conditional_fee where
  "example_rule =
     \<lparr>rule_id = 7, name = ''handling'', offer_type = ''Site'', status = Open,
      condition = \<lparr>cond_type = ''Count'', cond_range = Some (\<lambda>p. True), cond_value = 6\<rparr>,
      fee = \<lparr>fee_pk = 1, fee_range = None, fee_type = ''Absolute'', fee_value = 1\<rparr>,
      start_datetime = None, end_datetime = None,
      max_global_applications = None, max_user_applications = None,
      max_basket_applications = None, max_fee = None, total_fee = 0,
      num_applications = 0, num_orders = 0\<rparr>"

text \<open>
  The fee amount \<open>AbsoluteFee.apply\<close> works with, in the words of the specification:
  the explicit amount, else the configured value, clamped by the cap when one is given.
\<close>

definition spec_effective_fee_amount :: "fee \<Rightarrow> money option \<Rightarrow> money option \<Rightarrow> money" where
  "spec_effective_fee_amount self fee_amount max_total_fee =
     (let a = (case fee_amount of None \<Rightarrow> fee_value self | Some x \<Rightarrow> x)
      in case max_total_fee of None \<Rightarrow> a | Some m \<Rightarrow> min a m)"

text \<open>
  Two lines in the range, the dearer one first in the basket: five units at 2.00 (key 1)
  and three units at 3.00 (key 2). No rounding function is configured, and every condition
  counts as satisfied.
\<close>

definition line_a :: line where
  "line_a = \<lparr>line_id = 1, line_product = 11, quantity = 5, unit_effective_price = 2,
              quantity_without_discount = 5, attr_fee_amount = None,
              attr_fee_quantity = None\<rparr>"

definition line_b :: line where
  "line_b = \<lparr>line_id = 2, line_product = 12, quantity = 3, unit_effective_price = 3,
              quantity_without_discount = 3, attr_fee_amount = None,
              attr_fee_quantity = None\<rparr>"

definition example_basket :: basket where
  "example_basket = \<lparr>owner = None, all_lines = [line_b, line_a], total_test = 0,
                      attr_total_fees_amount = None, attr_fees = None,
                      fee_applications = None\<rparr>"

definition example_env :: env where
  "example_env = \<lparr>OSCAR_OFFER_ROUNDING_FUNCTION = None, is_satisfied = (\<lambda>klass r b. True)\<rparr>"

text \<open>A third line at the price of \<open>line_b\<close>, and a basket that holds all three.\<close>

definition line_c :: line where
  "line_c = \<lparr>line_id = 3, line_product = 13, quantity = 1, unit_effective_price = 3,
              quantity_without_discount = 1, attr_fee_amount = None,
              attr_fee_quantity = None\<rparr>"

definition tie_basket :: basket where
  "tie_basket = example_basket\<lparr>all_lines := [line_b, line_c, line_a]\<rparr>"

text \<open>
  The line selector's filter in the words of the specification: the product is in the
  range, the effective unit price is nonzero, the discountable quantity is nonzero.
\<close>

definition spec_selected :: "range \<Rightarrow> line \<Rightarrow> bool" where
  "spec_selected rng l =
     (rng (line_product l) \<and> unit_effective_price l \<noteq> 0 \<and> quantity_without_discount l \<noteq> 0)"

text \<open>
  The affected quantity of a covered line in the words of the specification: one unit
  under a Coverage condition, the line's full quantity otherwise.
\<close>

definition spec_quantity_affected :: "bool \<Rightarrow> money \<times> line \<Rightarrow> int" where
  "spec_quantity_affected coverage t = (if coverage then 1 else int (quantity (snd t)))"

text \<open>
  Reading a line's annotations: a line object without the attribute carries no fee yet.
\<close>

definition line_fee_amount :: "line \<Rightarrow> money" where
  "line_fee_amount l = (case attr_fee_amount l of None \<Rightarrow> 0 | Some a \<Rightarrow> a)"

definition line_fee_quantity :: "line \<Rightarrow> int" where
  "line_fee_quantity l = (case attr_fee_quantity l of None \<Rightarrow> 0 | Some n \<Rightarrow> n)"

text \<open>
  The fee fragments of the covered lines in the words of the specification: every covered
  line but the last gets the rounded proportional share, the last one gets the fee amount
  less the fragments assigned before it. \<open>fragments_from\<close> is the same list when
  \<open>fee_applied\<close> already holds an amount at the start of the loop.
\<close>

definition fragments_from ::
  "env \<Rightarrow> money \<Rightarrow> int \<Rightarrow> money \<Rightarrow> (money \<times> line \<times> int) list \<Rightarrow> money list" where
  "fragments_from env fee_amount num_affected fee_applied covered_lines =
     (let firsts = map (\<lambda>c. fee_round env ((fee_amount * of_int (snd (snd c)))
                                             / of_int num_affected))
                     (butlast covered_lines)
      in firsts @ [fee_amount - fee_applied - sum_list firsts])"

definition spec_fragments ::
  "env \<Rightarrow> money \<Rightarrow> int \<Rightarrow> (money \<times> line \<times> int) list \<Rightarrow> money list" where
  "spec_fragments env fee_amount num_affected covered_lines =
     (let firsts = map (\<lambda>c. fee_round env ((fee_amount * of_int (snd (snd c)))
                                             / of_int num_affected))
                     (butlast covered_lines)
      in firsts @ [fee_amount - sum_list firsts])"

text \<open>
  A line after an allocation that assigns, by line key, a fragment and a quantity.
\<close>

definition annotate :: "(nat \<rightharpoonup> money \<times> int) \<Rightarrow> line \<Rightarrow> line" where
  "annotate m x = (case m (line_id x) of None \<Rightarrow> x | Some (f, q) \<Rightarrow> apply_fee_to_line x f q)"

text \<open>
  Reading the ledger: how often, and with what total amount, a rule is recorded; a rule
  without an entry is recorded zero times.
\<close>

definition ledger_freq :: "fee_applications \<Rightarrow> nat \<Rightarrow> int" where
  "ledger_freq applications k = (case map_of applications k of None \<Rightarrow> 0 | Some a \<Rightarrow> freq a)"

definition ledger_amount :: "fee_applications \<Rightarrow> nat \<Rightarrow> money" where
  "ledger_amount applications k =
     (case map_of applications k of None \<Rightarrow> 0 | Some a \<Rightarrow> amount a)"

text \<open>The example basket after one application of the example rule.\<close>

definition example_basket_after :: basket where
  "example_basket_after =
     example_basket
       \<lparr>all_lines := [line_b\<lparr>attr_fee_amount := Some (19 / 50), attr_fee_quantity := Some 3\<rparr>,
                      line_a\<lparr>attr_fee_amount := Some (31 / 50), attr_fee_quantity := Some 5\<rparr>],
        attr_total_fees_amount := Some 1,
        attr_fees := Some [fee example_rule]\<rparr>"

text \<open>
  A line without its fee annotations, and two baskets that agree on the owner and on the
  lines up to their fee annotations. \<open>line_offset\<close> is the difference between the
  annotations of two lines; \<open>sim D b c\<close> says that \<open>b\<close> and \<open>c\<close> agree up to the
  annotations, which differ line by line by \<open>D\<close>.
\<close>

definition reset_line :: "line \<Rightarrow> line" where
  "reset_line l = l\<lparr>attr_fee_amount := None, attr_fee_quantity := None\<rparr>"

definition reset_lines :: "basket \<Rightarrow> basket" where
  "reset_lines b = b\<lparr>all_lines := map reset_line (all_lines b)\<rparr>"

definition same_lines :: "basket \<Rightarrow> basket \<Rightarrow> bool" where
  "same_lines b c \<longleftrightarrow>
     owner b = owner c \<and> map reset_line (all_lines b) = map reset_line (all_lines c)"

definition line_offset :: "line \<Rightarrow> line \<Rightarrow> money \<times> int" where
  "line_offset x y =
     (line_fee_amount x - line_fee_amount y, line_fee_quantity x - line_fee_quantity y)"

definition sim :: "(money \<times> int) list \<Rightarrow> basket \<Rightarrow> basket \<Rightarrow> bool" where
  "sim D b c \<longleftrightarrow> same_lines b c \<and> map2 line_offset (all_lines b) (all_lines c) = D"

text \<open>
  The condition classes are not part of the sources at hand. A condition test that reads
  the owner and the lines of the basket, but not the fee annotations, the counter or the
  ledger, gives the same answer on two baskets that agree up to those.
\<close>

definition annotation_blind :: "env \<Rightarrow> bool" where
  "annotation_blind env \<longleftrightarrow>
     (\<forall>klass r b c. same_lines b c \<longrightarrow> is_satisfied env klass r b = is_satisfied env klass r c)"

text \<open>Line tuples and covered lines without the annotations of their lines.\<close>

definition reset_tuple :: "money \<times> line \<Rightarrow> money \<times> line" where
  "reset_tuple t = (fst t, reset_line (snd t))"

definition reset_covered :: "money \<times> line \<times> int \<Rightarrow> money \<times> line \<times> int" where
  "reset_covered c = (fst c, reset_line (fst (snd c)), snd (snd c))"

text \<open>
  The example basket after one pass with the example rule, and after a second pass.
\<close>

definition example_ledger :: fee_applications where
  "example_ledger =
     [(7, \<lparr>app_fee = example_rule, app_result = BasketFee 1, app_name = ''handling'',
           app_description = None, freq = 1, amount = 1\<rparr>)]"

definition example_basket_once :: basket where
  "example_basket_once =
     example_basket_after\<lparr>total_test := 1, fee_applications := Some example_ledger\<rparr>"

definition example_basket_twice :: basket where
  "example_basket_twice =
     example_basket
       \<lparr>all_lines := [line_b\<lparr>attr_fee_amount := Some (19 / 25), attr_fee_quantity := Some 6\<rparr>,
                      line_a\<lparr>attr_fee_amount := Some (31 / 25), attr_fee_quantity := Some 10\<rparr>],
        total_test := 2,
        attr_total_fees_amount := Some 2,
        attr_fees := Some [fee example_rule, fee example_rule],
        fee_applications := Some example_ledger\<rparr>"

section \<open>Properties\<close>

subsection \<open>Usage limits\<close>

lemma fold_min_cons: "fold min xs (x::int) = Min (insert x (set xs))"
proof (induction xs arbitrary: x)
  case Nil
  then show ?case by simp
next
  case (Cons y ys)
  have "fold min (y # ys) x = Min (insert (min y x) (set ys))"
    by (simp add: Cons.IH)
  also have "\<dots> = Min (insert x (set (y # ys)))"
    by (cases "set ys = {}") (simp_all add: min.commute min.left_commute min.assoc)
  finally show ?case .
qed

lemma py_min_Min: "xs \<noteq> [] \<Longrightarrow> py_min xs = Inr (Min (set xs))"
  by (cases xs) (simp_all add: fold_min_cons)

lemma get_max_applications_eq:
  "get_max_applications r u =
     (if (case max_fee r of Some mf \<Rightarrow> mf \<noteq> 0 \<and> mf \<le> total_fee r | None \<Rightarrow> False)
      then Inr 0
      else if (case max_user_applications r of Some mu \<Rightarrow> mu \<noteq> 0 | None \<Rightarrow> False)
              \<and> u \<noteq> None
      then Inl NotImplementedError
      else Inr (Min (spec_limits r)))"
  by (auto simp: get_max_applications_def get_num_user_applications_def spec_limits_def
        truthy_nat_def truthy_money_def Let_def py_min_Min insert_commute
        split: option.splits)

text \<open>
  C5 (as amended). \<open>get_max_applications\<close> returns 0 when \<open>max_fee\<close> holds a nonzero
  amount that \<open>total_fee\<close> has reached. Otherwise, when no limit per user applies
  (\<open>max_user_applications\<close> is unset or zero, or no user is given), it returns the
  minimum of 10000, \<open>max_basket_applications\<close> and
  \<open>max(0, max_global_applications - num_applications)\<close>, a limit that is unset or zero
  being left out of the minimum.
\<close>

theorem get_max_applications_cases:
  "((case max_fee r of Some mf \<Rightarrow> mf \<noteq> 0 \<and> mf \<le> total_fee r | None \<Rightarrow> False)
      \<longrightarrow> get_max_applications r u = Inr 0)
   \<and> (\<not> (case max_fee r of Some mf \<Rightarrow> mf \<noteq> 0 \<and> mf \<le> total_fee r | None \<Rightarrow> False)
       \<and> ((case max_user_applications r of Some mu \<Rightarrow> mu = 0 | None \<Rightarrow> True) \<or> u = None)
      \<longrightarrow> get_max_applications r u = Inr (Min (spec_limits r)))"
  by (auto simp: get_max_applications_eq split: option.splits)

theorem get_max_applications_cases_witness:
  "get_max_applications (example_rule\<lparr>max_basket_applications := Some 3,
       max_global_applications := Some 5, num_applications := 4\<rparr>) (Some 1) = Inr 1
   \<and> get_max_applications (example_rule\<lparr>max_fee := Some 5, total_fee := 5\<rparr>) (Some 1)
       = Inr 0"
  using get_max_applications_cases [of "example_rule\<lparr>max_basket_applications := Some 3,
       max_global_applications := Some 5, num_applications := 4\<rparr>" "Some 1"]
    get_max_applications_cases [of "example_rule\<lparr>max_fee := Some 5, total_fee := 5\<rparr>" "Some 1"]
  by (simp add: example_rule_def spec_limits_def)

text \<open>
  The claim as first stated fails: a \<open>max_fee\<close> of zero that \<open>total_fee\<close> has reached
  does not give 0, and a basket limit of zero does not enter the minimum.
\<close>

theorem get_max_applications_counterexample:
  "get_max_applications (example_rule\<lparr>max_fee := Some 0, max_basket_applications := Some 0\<rparr>)
     None = Inr 10000"
  by (simp add: get_max_applications_def example_rule_def truthy_nat_def truthy_money_def
        Let_def)

text \<open>
  With a nonzero limit per user and a user the call does not return at all: the count of
  the user's prior applications is a stub that raises.
\<close>

lemma get_max_applications_user_limit:
  "get_max_applications (example_rule\<lparr>max_user_applications := Some 3\<rparr>) (Some 1)
     = Inl NotImplementedError"
  by (simp add: get_max_applications_def get_num_user_applications_def example_rule_def
        truthy_nat_def truthy_money_def Let_def)

subsection \<open>Status of a rule\<close>

lemma spec_limits_finite: "finite (spec_limits r)"
  by (simp add: spec_limits_def split: option.splits)

lemma spec_limits_nonneg: "x \<in> spec_limits r \<Longrightarrow> 0 \<le> x"
  by (auto simp: spec_limits_def split: option.splits if_splits)

lemma get_max_applications_no_user:
  "\<exists>m. get_max_applications r None = Inr m \<and> 0 \<le> m"
proof -
  have "spec_limits r \<noteq> {}" by (simp add: spec_limits_def)
  then have "Min (spec_limits r) \<in> spec_limits r"
    by (intro Min_in spec_limits_finite)
  then have "0 \<le> Min (spec_limits r)" by (rule spec_limits_nonneg)
  then show ?thesis
    by (simp add: get_max_applications_eq)
qed

lemma get_max_applications_exhausted:
  assumes "max_global_applications r = Some g" "g \<noteq> 0" "g \<le> num_applications r"
  shows "get_max_applications r None = Inr 0"
proof -
  have in0: "0 \<in> spec_limits r"
    using assms by (simp add: spec_limits_def)
  have "Min (spec_limits r) \<le> 0"
    using spec_limits_finite in0 by (rule Min_le)
  moreover have "Min (spec_limits r) \<in> spec_limits r"
    using in0 by (intro Min_in spec_limits_finite) auto
  then have "0 \<le> Min (spec_limits r)" by (rule spec_limits_nonneg)
  ultimately show ?thesis
    by (simp add: get_max_applications_eq)
qed

text \<open>
  C6. \<open>save\<close> recomputes the status unless the rule is suspended: \<open>Consumed\<close> exactly
  when \<open>get_max_applications()\<close> (no user) is 0, \<open>Open\<close> otherwise; a suspended rule
  is saved as it is. \<open>suspend\<close> sets \<open>Suspended\<close>, \<open>unsuspend\<close> sets \<open>Open\<close> and lets
  \<open>save\<close> recompute. A rule whose global limit is used up (limit 5, 5 applications) is
  \<open>Consumed\<close> after \<open>save\<close> unless it was suspended. With no user the call to
  \<open>get_max_applications\<close> never raises.
\<close>

theorem save_status:
  "(\<exists>m. get_max_applications r None = Inr m \<and>
        save r = Inr (r\<lparr>status := (if status r = Suspended then Suspended
                                     else if m = 0 then Consumed else Open)\<rparr>))
   \<and> suspend r = Inr (r\<lparr>status := Suspended\<rparr>)
   \<and> (\<exists>m. get_max_applications r None = Inr m \<and>
          unsuspend r = Inr (r\<lparr>status := (if m = 0 then Consumed else Open)\<rparr>))
   \<and> (max_global_applications r = Some g \<and> g \<noteq> 0 \<and> g \<le> num_applications r
        \<and> status r \<noteq> Suspended
        \<longrightarrow> save r = Inr (r\<lparr>status := Consumed\<rparr>))"
proof (intro conjI impI)
  obtain m where m: "get_max_applications r None = Inr m"
    using get_max_applications_no_user by blast
  show "\<exists>m. get_max_applications r None = Inr m \<and>
        save r = Inr (r\<lparr>status := (if status r = Suspended then Suspended
                                     else if m = 0 then Consumed else Open)\<rparr>)"
    using m by (simp add: save_def is_suspended_def)
  show "suspend r = Inr (r\<lparr>status := Suspended\<rparr>)"
    by (simp add: suspend_def save_def is_suspended_def)
  have "get_max_applications (r\<lparr>status := Open\<rparr>) None = get_max_applications r None"
    by (simp add: get_max_applications_def Let_def)
  then show "\<exists>m. get_max_applications r None = Inr m \<and>
          unsuspend r = Inr (r\<lparr>status := (if m = 0 then Consumed else Open)\<rparr>)"
    using m by (simp add: unsuspend_def save_def is_suspended_def)
next
  assume a: "max_global_applications r = Some g \<and> g \<noteq> 0 \<and> g \<le> num_applications r
        \<and> status r \<noteq> Suspended"
  then have "get_max_applications r None = Inr 0"
    by (intro get_max_applications_exhausted [of r g]) simp_all
  with a show "save r = Inr (r\<lparr>status := Consumed\<rparr>)"
    by (simp add: save_def is_suspended_def)
qed

theorem save_status_witness:
  "save (example_rule\<lparr>max_global_applications := Some 5, num_applications := 5\<rparr>)
     = Inr (example_rule\<lparr>max_global_applications := Some 5, num_applications := 5,
                         status := Consumed\<rparr>)
   \<and> save (example_rule\<lparr>max_global_applications := Some 5, num_applications := 5,
                         status := Suspended\<rparr>)
     = Inr (example_rule\<lparr>max_global_applications := Some 5, num_applications := 5,
                         status := Suspended\<rparr>)"
  using save_status [of "example_rule\<lparr>max_global_applications := Some 5, num_applications := 5\<rparr>" 5]
    save_status [of "example_rule\<lparr>max_global_applications := Some 5, num_applications := 5,
                         status := Suspended\<rparr>" 5]
  by (simp add: example_rule_def)

subsection \<open>Availability window\<close>

text \<open>
  C7. Availability is inclusive at both bounds of the window. For a rule that is not
  suspended and whose \<open>get_max_applications\<close> is positive: with \<open>end_datetime = T\<close> it is
  available at \<open>T\<close> (the start, if any, not being later), with \<open>start_datetime = T\<close> it is
  available at \<open>T\<close>, and with both bounds absent it is available at every time. Whatever
  the status and the limits, it is unavailable after its end and before its start. A
  missing test date stands for the clock reading. The site query has the same inclusive
  bounds for a rule with both bounds set.
\<close>

theorem is_available_window:
  "(\<not> is_suspended r \<and> get_max_applications r u = Inr m \<and> 0 < m \<longrightarrow>
      (end_datetime r = Some T \<and> (case start_datetime r of Some s \<Rightarrow> s \<le> T | None \<Rightarrow> True)
         \<longrightarrow> is_available r u (Some T) now = Inr True) \<and>
      (start_datetime r = Some T \<and> (case end_datetime r of Some e \<Rightarrow> T \<le> e | None \<Rightarrow> True)
         \<longrightarrow> is_available r u (Some T) now = Inr True) \<and>
      (start_datetime r = None \<and> end_datetime r = None
         \<longrightarrow> is_available r u (Some t) now = Inr True))
   \<and> (end_datetime r = Some T \<and> T < t \<longrightarrow> is_available r u (Some t) now = Inr False)
   \<and> (start_datetime r = Some T \<and> t < T \<longrightarrow> is_available r u (Some t) now = Inr False)
   \<and> is_available r u None now = is_available r u (Some now) now
   \<and> (offer_type r = ''Site'' \<and> status r = Open \<and> start_datetime r = Some s
        \<and> end_datetime r = Some T \<and> s \<le> T
        \<longrightarrow> site_fee_selected r T \<and> (T < t \<longrightarrow> \<not> site_fee_selected r t)
            \<and> site_fee_selected r s \<and> (t < s \<longrightarrow> \<not> site_fee_selected r t))"
  by (auto simp: is_available_def Let_def site_fee_selected_def split: option.splits)

theorem is_available_window_witness:
  "is_available (example_rule\<lparr>start_datetime := Some 10, end_datetime := Some 20\<rparr>) None
      (Some 20) 0 = Inr True
   \<and> is_available (example_rule\<lparr>start_datetime := Some 10, end_datetime := Some 20\<rparr>) None
      (Some 21) 0 = Inr False
   \<and> is_available (example_rule\<lparr>start_datetime := Some 10, end_datetime := Some 20\<rparr>) None
      (Some 10) 0 = Inr True
   \<and> is_available (example_rule\<lparr>start_datetime := Some 10, end_datetime := Some 20\<rparr>) None
      (Some 9) 0 = Inr False
   \<and> is_available example_rule None (Some 5) 0 = Inr True
   \<and> site_fee_selected (example_rule\<lparr>start_datetime := Some 10, end_datetime := Some 20\<rparr>) 20
   \<and> \<not> site_fee_selected (example_rule\<lparr>start_datetime := Some 10, end_datetime := Some 20\<rparr>) 21"
proof -
  let ?r = "example_rule\<lparr>start_datetime := Some 10, end_datetime := Some 20\<rparr>"
  have m: "get_max_applications ?r None = Inr 10000"
       "get_max_applications example_rule None = Inr 10000"
    by (simp_all add: get_max_applications_def example_rule_def truthy_nat_def
          truthy_money_def Let_def)
  have s: "\<not> is_suspended ?r" "\<not> is_suspended example_rule"
    by (simp_all add: is_suspended_def example_rule_def)
  have f: "start_datetime ?r = Some 10" "end_datetime ?r = Some 20"
      "start_datetime example_rule = None" "end_datetime example_rule = None"
      "offer_type ?r = ''Site''" "status ?r = Open"
    by (simp_all add: example_rule_def)
  show ?thesis
    using is_available_window [of ?r None 10000 20 0 21 10]
      is_available_window [of ?r None 10000 10 0 9 10]
      is_available_window [of example_rule None 10000 0 0 5 0]
      m s f
    by simp
qed

text \<open>A rule with an end but no start is available but never selected as a site fee.\<close>

lemma site_fee_needs_start:
  "start_datetime r = None \<Longrightarrow> end_datetime r = Some T \<Longrightarrow> \<not> site_fee_selected r t"
  by (simp add: site_fee_selected_def)

subsection \<open>The zero fee\<close>

text \<open>
  C4 (as amended). When the effective fee amount is 0 (a configured value of 0, or a cap
  that clamps it to 0), \<open>AbsoluteFee.apply\<close> returns the canonical zero result and the
  basket, lines included, as it was. The zero result is unsuccessful; being a
  \<open>BasketFee\<close>, it is final. The same holds for \<open>apply_fee\<close> of a rule whose absolute
  fee has the value 0.
\<close>

theorem absolute_fee_apply_zero:
  "(spec_effective_fee_amount self fee_amount max_total_fee = 0 \<longrightarrow>
      absolute_fee_apply env self b klass cond offer fee_amount max_total_fee
        = Inr (ZERO_FEE, b))
   \<and> \<not> is_successful ZERO_FEE \<and> is_final ZERO_FEE
   \<and> (fee_type (fee r) = ''Absolute'' \<and> fee_value (fee r) = 0
        \<and> condition_proxy (condition r) = Inr k
        \<longrightarrow> apply_fee env r b = Inr (ZERO_FEE, b))"
proof (intro conjI impI)
  assume "spec_effective_fee_amount self fee_amount max_total_fee = 0"
  then show "absolute_fee_apply env self b klass cond offer fee_amount max_total_fee
        = Inr (ZERO_FEE, b)"
    by (simp add: spec_effective_fee_amount_def absolute_fee_apply_def Let_def)
next
  show "\<not> is_successful ZERO_FEE" by (simp add: ZERO_FEE_def)
  show "is_final ZERO_FEE" by (simp add: ZERO_FEE_def)
next
  assume a: "fee_type (fee r) = ''Absolute'' \<and> fee_value (fee r) = 0
        \<and> condition_proxy (condition r) = Inr k"
  then have "absolute_fee_apply env (fee r) b k (condition r) r None None = Inr (ZERO_FEE, b)"
    by (simp add: absolute_fee_apply_def)
  with a show "apply_fee env r b = Inr (ZERO_FEE, b)"
    by (simp add: apply_fee_def is_condition_satisfied_def fee_proxy_def)
qed

theorem absolute_fee_apply_zero_witness:
  "absolute_fee_apply example_env (fee example_rule) example_basket CountCondition
      (condition example_rule) example_rule None (Some 0) = Inr (ZERO_FEE, example_basket)
   \<and> apply_fee example_env (example_rule\<lparr>fee := (fee example_rule)\<lparr>fee_value := 0\<rparr>\<rparr>)
        example_basket = Inr (ZERO_FEE, example_basket)"
  using absolute_fee_apply_zero [of "fee example_rule" None "Some 0" example_env example_basket
      CountCondition "condition example_rule" example_rule
      "example_rule\<lparr>fee := (fee example_rule)\<lparr>fee_value := 0\<rparr>\<rparr>" CountCondition]
  by (simp add: spec_effective_fee_amount_def example_rule_def condition_proxy_def)

text \<open>
  The claim as first stated fails: the result returned for a fee of 0 is final.
\<close>

theorem absolute_fee_apply_zero_counterexample:
  "absolute_fee_apply example_env ((fee example_rule)\<lparr>fee_value := 0\<rparr>) example_basket
      CountCondition (condition example_rule) example_rule None None
     = Inr (ZERO_FEE, example_basket)
   \<and> is_final ZERO_FEE"
  by (simp add: absolute_fee_apply_def ZERO_FEE_def)

subsection \<open>The line selector\<close>

lemma applicable_loop_filter:
  "applicable_loop (Some rng) ls acc
     = Inr (acc @ map (\<lambda>l. (unit_effective_price l, l)) (filter (spec_selected rng) ls))"
  by (induction ls arbitrary: acc) (simp_all add: spec_selected_def Let_def)

lemma get_applicable_lines_sort:
  "get_applicable_lines self offer b (Some rng)
     = Inr (sort_key fst (map (\<lambda>l. (unit_effective_price l, l))
                            (filter (spec_selected rng) (all_lines b))))"
  by (simp add: get_applicable_lines_def applicable_loop_filter)

text \<open>
  C8. For a given range the line selector returns the lines that pass the filter, each
  paired with its unit price, in ascending order of price, the lines of one price in the
  order of the basket.
\<close>

theorem get_applicable_lines_selected:
  "\<exists>lts. get_applicable_lines self offer b (Some rng) = Inr lts
     \<and> sorted (map fst lts)
     \<and> (\<forall>p. filter (\<lambda>t. fst t = p) lts
              = map (\<lambda>l. (p, l))
                  (filter (\<lambda>l. spec_selected rng l \<and> unit_effective_price l = p) (all_lines b)))
     \<and> snd ` set lts = {l \<in> set (all_lines b). spec_selected rng l}
     \<and> (\<forall>t \<in> set lts. fst t = unit_effective_price (snd t))
     \<and> length lts = length (filter (spec_selected rng) (all_lines b))"
proof -
  let ?sel = "map (\<lambda>l. (unit_effective_price l, l)) (filter (spec_selected rng) (all_lines b))"
  let ?lts = "sort_key fst ?sel"
  have 1: "get_applicable_lines self offer b (Some rng) = Inr ?lts"
    by (rule get_applicable_lines_sort)
  have 2: "sorted (map fst ?lts)"
    by (rule sorted_sort_key)
  have 3: "filter (\<lambda>t. fst t = p) ?lts
              = map (\<lambda>l. (p, l))
                  (filter (\<lambda>l. spec_selected rng l \<and> unit_effective_price l = p) (all_lines b))"
    for p
  proof -
    have "filter (\<lambda>t. fst t = p) ?lts = filter (\<lambda>t. fst t = p) ?sel"
      by (rule sort_key_stable)
    also have "\<dots> = map (\<lambda>l. (p, l))
          (filter (\<lambda>l. spec_selected rng l \<and> unit_effective_price l = p) (all_lines b))"
      by (induction "all_lines b") (simp_all add: filter_map comp_def)
    finally show ?thesis .
  qed
  have 4: "snd ` set ?lts = {l \<in> set (all_lines b). spec_selected rng l}"
    by (auto simp: image_iff)
  have 5: "\<forall>t \<in> set ?lts. fst t = unit_effective_price (snd t)"
    by auto
  have 6: "length ?lts = length (filter (spec_selected rng) (all_lines b))"
    by simp
  from 1 2 3 4 5 6 show ?thesis by blast
qed

lemma tie_basket_selected:
  "get_applicable_lines (fee example_rule) example_rule tie_basket (Some (\<lambda>p. True))
     = Inr [(2, line_a), (3, line_b), (3, line_c)]"
  by (simp add: get_applicable_lines_def tie_basket_def example_basket_def line_a_def
        line_b_def line_c_def)

theorem get_applicable_lines_selected_witness:
  "get_applicable_lines (fee example_rule) example_rule tie_basket (Some (\<lambda>p. True))
     = Inr [(2, line_a), (3, line_b), (3, line_c)]
   \<and> sorted (map fst [(2::money, line_a), (3, line_b), (3, line_c)])
   \<and> filter (\<lambda>t. fst t = 3) [(2::money, line_a), (3, line_b), (3, line_c)]
       = map (\<lambda>l. (3, l)) (filter (\<lambda>l. spec_selected (\<lambda>p. True) l \<and> unit_effective_price l = 3)
                             (all_lines tie_basket))"
proof -
  from get_applicable_lines_selected [of "fee example_rule" example_rule tie_basket "\<lambda>p. True"]
  obtain lts where
    h: "get_applicable_lines (fee example_rule) example_rule tie_basket (Some (\<lambda>p. True))
          = Inr lts"
       "sorted (map fst lts)"
       "\<forall>p. filter (\<lambda>t. fst t = p) lts
              = map (\<lambda>l. (p, l))
                  (filter (\<lambda>l. spec_selected (\<lambda>p. True) l \<and> unit_effective_price l = p)
                     (all_lines tie_basket))"
    by blast
  from h(1) have e: "lts = [(2, line_a), (3, line_b), (3, line_c)]"
    by (simp add: tie_basket_selected)
  from h(2) have s: "sorted (map fst [(2::money, line_a), (3, line_b), (3, line_c)])"
    unfolding e .
  from h(3) have f: "filter (\<lambda>t. fst t = 3) [(2::money, line_a), (3, line_b), (3, line_c)]
       = map (\<lambda>l. (3, l)) (filter (\<lambda>l. spec_selected (\<lambda>p. True) l \<and> unit_effective_price l = 3)
                             (all_lines tie_basket))"
    unfolding e by blast
  from tie_basket_selected s f show ?thesis by blast
qed

subsection \<open>The lines a fee covers\<close>

lemma cover_loop_prefix:
  "cover_loop cov perm lts n0 acc = (n, cs) \<Longrightarrow>
     \<exists>k \<le> length lts.
        cs = acc @ map (\<lambda>t. (fst t, snd t, spec_quantity_affected cov t)) (take k lts)
      \<and> n = n0 + sum_list (map (spec_quantity_affected cov) (take k lts))
      \<and> (k = length lts \<or> perm \<le> n)
      \<and> (\<forall>j. 0 < j \<and> j < k \<longrightarrow>
             n0 + sum_list (map (spec_quantity_affected cov) (take j lts)) < perm)
      \<and> (lts \<noteq> [] \<longrightarrow> 0 < k)"
proof (induction lts arbitrary: n0 acc)
  case Nil
  then show ?case by simp
next
  case (Cons t rest)
  obtain price l where t: "t = (price, l)" by (cases t) auto
  let ?qa = "spec_quantity_affected cov t"
  show ?case
  proof (cases "perm \<le> n0 + ?qa")
    case True
    with Cons.prems have "n = n0 + ?qa" "cs = acc @ [(price, l, ?qa)]"
      by (auto simp: t spec_quantity_affected_def Let_def split: if_splits)
    then show ?thesis using True
      by (intro exI [of _ 1]) (simp add: t)
  next
    case False
    with Cons.prems have
      "cover_loop cov perm rest (n0 + ?qa) (acc @ [(price, l, ?qa)]) = (n, cs)"
      by (auto simp: t spec_quantity_affected_def Let_def split: if_splits)
    from Cons.IH [OF this] obtain k where k: "k \<le> length rest"
      "cs = (acc @ [(price, l, ?qa)])
            @ map (\<lambda>t. (fst t, snd t, spec_quantity_affected cov t)) (take k rest)"
      "n = (n0 + ?qa) + sum_list (map (spec_quantity_affected cov) (take k rest))"
      "k = length rest \<or> perm \<le> n"
      "\<forall>j. 0 < j \<and> j < k \<longrightarrow>
             (n0 + ?qa) + sum_list (map (spec_quantity_affected cov) (take j rest)) < perm"
      by blast
    have later: "n0 + sum_list (map (spec_quantity_affected cov) (take j (t # rest))) < perm"
      if j: "0 < j" "j < Suc k" for j
    proof (cases j)
      case 0
      with j show ?thesis by simp
    next
      case (Suc j')
      show ?thesis
      proof (cases "j' = 0")
        case True
        with False Suc show ?thesis by simp
      next
        case False
        with j Suc k(5) have
          "(n0 + ?qa) + sum_list (map (spec_quantity_affected cov) (take j' rest)) < perm"
          by simp
        with Suc show ?thesis by (simp add: add.assoc)
      qed
    qed
    show ?thesis
      using k(1-4) later
      by (intro exI [of _ "Suc k"]) (auto simp: t add.assoc)
  qed
qed

text \<open>
  C3 (as amended). In the accumulation step of \<open>AbsoluteFee.apply\<close>, for a condition
  that is not a Coverage condition, the covered lines are a prefix of the selected lines;
  each contributes its full quantity; the accumulation stops at the first line with which
  the running total reaches \<open>int(condition.value)\<close>, and that line is covered with its
  whole quantity. For Count with value 6 over lines of quantity 5 and 3 both lines are
  covered in full (5 and 3 units, total 8).
\<close>

theorem cover_loop_covered:
  "(klass \<noteq> CoverageCondition
    \<and> cover_loop (isinstance_oscar_coverage klass) num_permitted line_tuples 0 []
        = (num_affected, covered_lines) \<longrightarrow>
      length covered_lines \<le> length line_tuples
    \<and> covered_lines = map (\<lambda>t. (fst t, snd t, int (quantity (snd t))))
                        (take (length covered_lines) line_tuples)
    \<and> num_affected = sum_list (map (\<lambda>t. int (quantity (snd t)))
                                 (take (length covered_lines) line_tuples))
    \<and> (length covered_lines = length line_tuples \<or> num_permitted \<le> num_affected)
    \<and> (\<forall>j. 0 < j \<and> j < length covered_lines \<longrightarrow>
           sum_list (map (\<lambda>t. int (quantity (snd t))) (take j line_tuples))
             < num_permitted)
    \<and> (line_tuples \<noteq> [] \<longrightarrow> covered_lines \<noteq> []))
   \<and> cover_loop (isinstance_oscar_coverage CountCondition) (py_int 6)
        [(2, line_a), (3, line_b)] 0 []
        = (8, [(2, line_a, 5), (3, line_b, 3)])"
proof (intro conjI impI)
  assume a: "klass \<noteq> CoverageCondition
    \<and> cover_loop (isinstance_oscar_coverage klass) num_permitted line_tuples 0 []
        = (num_affected, covered_lines)"
  then have "cover_loop False num_permitted line_tuples 0 [] = (num_affected, covered_lines)"
    by (cases klass) simp_all
  moreover have sq: "spec_quantity_affected False = (\<lambda>t. int (quantity (snd t)))"
    by (rule ext) (simp add: spec_quantity_affected_def)
  ultimately obtain k where k: "k \<le> length line_tuples"
      "covered_lines = map (\<lambda>t. (fst t, snd t, int (quantity (snd t))))
                         (take k line_tuples)"
      "num_affected = sum_list (map (\<lambda>t. int (quantity (snd t))) (take k line_tuples))"
      "k = length line_tuples \<or> num_permitted \<le> num_affected"
      "\<forall>j. 0 < j \<and> j < k \<longrightarrow>
          sum_list (map (\<lambda>t. int (quantity (snd t))) (take j line_tuples)) < num_permitted"
      "line_tuples \<noteq> [] \<longrightarrow> 0 < k"
    using cover_loop_prefix [of False num_permitted line_tuples 0 "[]" num_affected
        covered_lines]
    unfolding sq by auto
  from k(1,2) have len: "length covered_lines = k" by simp
  show "length covered_lines \<le> length line_tuples" using k(1) len by simp
  show "covered_lines = map (\<lambda>t. (fst t, snd t, int (quantity (snd t))))
                        (take (length covered_lines) line_tuples)"
    using k(2) len by simp
  show "num_affected = sum_list (map (\<lambda>t. int (quantity (snd t)))
                                 (take (length covered_lines) line_tuples))"
    using k(3) len by simp
  show "length covered_lines = length line_tuples \<or> num_permitted \<le> num_affected"
    using k(4) len by simp
  show "\<forall>j. 0 < j \<and> j < length covered_lines \<longrightarrow>
           sum_list (map (\<lambda>t. int (quantity (snd t))) (take j line_tuples))
             < num_permitted"
    using k(5) len by simp
  show "covered_lines \<noteq> []" if "line_tuples \<noteq> []"
    using that k(6) len by auto
next
  show "cover_loop (isinstance_oscar_coverage CountCondition) (py_int 6)
        [(2, line_a), (3, line_b)] 0 []
        = (8, [(2, line_a, 5), (3, line_b, 3)])"
    by (simp add: py_int_def line_a_def line_b_def)
qed

theorem cover_loop_covered_witness:
  "cover_loop (isinstance_oscar_coverage CountCondition) 6
       [(2, line_a), (3, line_b), (3, line_c)] 0 []
     = (8, [(2, line_a, 5), (3, line_b, 3)])
   \<and> [(2::money, line_a, 5::int), (3, line_b, 3)]
       = map (\<lambda>t. (fst t, snd t, int (quantity (snd t))))
           (take 2 [(2, line_a), (3, line_b), (3, line_c)])
   \<and> (6::int) \<le> 8"
proof -
  have c: "cover_loop (isinstance_oscar_coverage CountCondition) 6
       [(2, line_a), (3, line_b), (3, line_c)] 0 []
     = (8, [(2, line_a, 5), (3, line_b, 3)])"
    by (simp add: line_a_def line_b_def)
  from cover_loop_covered [of CountCondition 6 "[(2, line_a), (3, line_b), (3, line_c)]" 8
      "[(2, line_a, 5), (3, line_b, 3)]"] c
  show ?thesis by simp
qed

text \<open>
  The claim as first stated fails in its last example: under a Count condition with
  value 6 the second line is covered with its three units, not with one, in the
  accumulation step and in the quantities the application writes to the lines.
\<close>

theorem cover_loop_covered_counterexample:
  "cover_loop (isinstance_oscar_coverage CountCondition) (py_int 6)
       [(2, line_a), (3, line_b)] 0 []
     = (8, [(2, line_a, 5), (3, line_b, 3)])
   \<and> map_sum id (\<lambda>(res, b). map attr_fee_quantity (all_lines b))
        (apply_fee example_env example_rule example_basket)
     = Inr [Some 3, Some 5]"
  by (simp add: py_int_def line_a_def line_b_def example_basket_def example_env_def
        example_rule_def apply_fee_def is_condition_satisfied_def condition_proxy_def
        fee_proxy_def absolute_fee_apply_def get_applicable_lines_def py_last_def
        update_line_def apply_fee_to_line_def apply_fee_to_basket_def line_eq_def
        fee_round_def quantize_round_down_def Let_def)

text \<open>
  A rule of type Coverage is resolved to this package's class, which the test against
  Oscar's class does not recognise: with value 2 over the same two lines the first line
  (five units) is covered with its full quantity and ends the accumulation; the lines do
  not contribute one unit each.
\<close>

lemma coverage_rule_covers_full_quantity:
  "map_sum id (\<lambda>(res, b). map attr_fee_quantity (all_lines b))
     (apply_fee example_env
        (example_rule\<lparr>condition := (condition example_rule)
                        \<lparr>cond_type := ''Coverage'', cond_value := 2\<rparr>\<rparr>)
        example_basket)
   = Inr [None, Some 5]"
  by (simp add: py_int_def line_a_def line_b_def example_basket_def example_env_def
        example_rule_def apply_fee_def is_condition_satisfied_def condition_proxy_def
        fee_proxy_def absolute_fee_apply_def get_applicable_lines_def py_last_def
        update_line_def apply_fee_to_line_def apply_fee_to_basket_def line_eq_def
        fee_round_def quantize_round_down_def Let_def)

subsection \<open>Exact allocation\<close>

lemma line_id_apply_fee_to_line [simp]: "line_id (apply_fee_to_line x f q) = line_id x"
  by (simp add: apply_fee_to_line_def Let_def)

lemma line_fee_amount_apply_fee_to_line [simp]:
  "line_fee_amount (apply_fee_to_line x f q) = line_fee_amount x + f"
  by (simp add: apply_fee_to_line_def line_fee_amount_def Let_def split: option.splits)

lemma line_fee_quantity_apply_fee_to_line [simp]:
  "line_fee_quantity (apply_fee_to_line x f q) = line_fee_quantity x + q"
  by (simp add: apply_fee_to_line_def line_fee_quantity_def Let_def split: option.splits)

lemma length_fragments_from [simp]:
  "cs \<noteq> [] \<Longrightarrow> length (fragments_from env fa na applied cs) = length cs"
  by (simp add: fragments_from_def Let_def)

lemma fragments_from_single [simp]:
  "fragments_from env fa na applied [c] = [fa - applied]"
  by (simp add: fragments_from_def)

lemma fragments_from_Cons:
  "cs \<noteq> [] \<Longrightarrow>
   fragments_from env fa na applied (c # cs)
     = fee_round env ((fa * of_int (snd (snd c))) / of_int na)
       # fragments_from env fa na
           (applied + fee_round env ((fa * of_int (snd (snd c))) / of_int na)) cs"
  by (simp add: fragments_from_def Let_def algebra_simps)

lemma spec_fragments_from: "spec_fragments env fa na cs = fragments_from env fa na 0 cs"
  by (simp add: spec_fragments_def fragments_from_def)

lemma sum_list_fragments_from:
  "sum_list (fragments_from env fa na applied cs) = fa - applied"
  by (simp add: fragments_from_def Let_def)

lemma annotate_after_update:
  "m k = None \<Longrightarrow>
   annotate m (if line_id x = k then apply_fee_to_line x f q else x)
     = annotate (m(k \<mapsto> (f, q))) x"
  by (simp add: annotate_def)

lemma allocate_loop_lines:
  assumes "distinct (map (\<lambda>c. line_id (fst (snd c))) cs)" "cs \<noteq> []"
    and "line_id last_line = line_id (fst (snd (last cs)))"
    and "na \<noteq> 0 \<or> length cs = 1"
  shows "allocate_loop env fa na last_line cs applied b =
     Inr (fa, b\<lparr>all_lines :=
                 map (annotate (map_of (zip (map (\<lambda>c. line_id (fst (snd c))) cs)
                                        (zip (fragments_from env fa na applied cs)
                                             (map (\<lambda>c. snd (snd c)) cs)))))
                   (all_lines b)\<rparr>)"
  using assms
proof (induction cs arbitrary: applied b)
  case Nil
  then show ?case by simp
next
  case (Cons c rest)
  obtain price l qty where c: "c = (price, l, qty)" by (cases c) auto
  show ?case
  proof (cases "rest = []")
    case True
    with Cons.prems have "line_eq l last_line"
      by (simp add: c line_eq_def)
    then show ?thesis
      using True
      by (simp add: c update_line_def annotate_def cong: map_cong)
  next
    case False
    let ?ids = "map (\<lambda>c. line_id (fst (snd c))) rest"
    let ?frag = "fee_round env ((fa * of_int qty) / of_int na)"
    let ?b1 = "update_line b l (\<lambda>x. apply_fee_to_line x ?frag qty)"
    let ?vals = "zip (fragments_from env fa na (applied + ?frag) rest)
                     (map (\<lambda>c. snd (snd c)) rest)"
    from False have lastin: "last rest \<in> set rest" by simp
    from Cons.prems(1) have notin: "line_id l \<notin> set ?ids" and dist: "distinct ?ids"
      by (simp_all add: c)
    from lastin have "line_id (fst (snd (last rest))) \<in> set ?ids"
      by auto
    with notin Cons.prems(3) False have neq: "\<not> line_eq l last_line"
      by (auto simp: line_eq_def c)
    from Cons.prems(4) False have na: "na \<noteq> 0"
      by (cases rest) simp_all
    have step: "allocate_loop env fa na last_line (c # rest) applied b
                  = allocate_loop env fa na last_line rest (applied + ?frag) ?b1"
      using neq na by (simp add: c)
    have ih: "allocate_loop env fa na last_line rest (applied + ?frag) ?b1 =
       Inr (fa, ?b1\<lparr>all_lines := map (annotate (map_of (zip ?ids ?vals))) (all_lines ?b1)\<rparr>)"
      using Cons.prems False dist na
      by (intro Cons.IH) simp_all
    have none: "map_of (zip ?ids ?vals) (line_id l) = None"
      using notin False by (simp add: map_of_zip_is_None)
    have lines: "map (annotate (map_of (zip ?ids ?vals))) (all_lines ?b1)
        = map (annotate (map_of (zip (map (\<lambda>c. line_id (fst (snd c))) (c # rest))
                                     (zip (fragments_from env fa na applied (c # rest))
                                          (map (\<lambda>c. snd (snd c)) (c # rest))))))
            (all_lines b)"
      using False none
      by (simp add: update_line_def fragments_from_Cons c annotate_after_update comp_def)
    show ?thesis
      unfolding step ih lines by (simp add: update_line_def)
  qed
qed


lemma applicable_loop_None:
  "applicable_loop None ls acc = (if ls = [] then Inr acc else Inl AttributeError)"
  by (cases ls) simp_all

lemma get_applicable_lines_Inr:
  assumes "get_applicable_lines self offer b r = Inr lts" "lts \<noteq> []"
  shows "\<exists>rng. lts = sort_key fst (map (\<lambda>l. (unit_effective_price l, l))
                                      (filter (spec_selected rng) (all_lines b)))"
proof (cases "if r = None then fee_range self else r")
  case None
  with assms show ?thesis
    by (auto simp: get_applicable_lines_def applicable_loop_None split: if_splits)
next
  case (Some rng)
  with assms(1) have "lts = sort_key fst (map (\<lambda>l. (unit_effective_price l, l))
                                      (filter (spec_selected rng) (all_lines b)))"
    by (auto simp: get_applicable_lines_def applicable_loop_filter split: if_splits)
  then show ?thesis by blast
qed

lemma distinct_ids_sort_key:
  "distinct (map g (sort_key f xs)) = distinct (map g xs)"
  by (simp add: distinct_map)

lemma selected_ids:
  assumes "distinct (map line_id ls)"
  shows "distinct (map (\<lambda>t. line_id (snd t))
            (sort_key fst (map (\<lambda>l. (unit_effective_price l, l)) (filter P ls))))"
proof -
  have "distinct (map line_id (filter P ls))"
    using assms by (simp add: distinct_map_filter)
  then have "distinct (map (\<lambda>t. line_id (snd t))
                (map (\<lambda>l. (unit_effective_price l, l)) (filter P ls)))"
    by (simp add: comp_def)
  then show ?thesis
    by (simp only: distinct_ids_sort_key)
qed

lemma sum_list_pos:
  "xs \<noteq> [] \<Longrightarrow> (\<And>x. x \<in> set xs \<Longrightarrow> 0 < g x) \<Longrightarrow> (0::int) < sum_list (map g xs)"
proof (induction xs)
  case Nil
  then show ?case by simp
next
  case (Cons a xs)
  have "0 \<le> sum_list (map g xs)"
    by (rule sum_list_nonneg) (use Cons.prems(2) in \<open>auto intro: less_imp_le\<close>)
  moreover have "0 < g a" using Cons.prems(2) by simp
  ultimately show ?case by simp
qed

lemma line_fee_amount_annotate:
  "line_fee_amount (annotate m x)
     = line_fee_amount x + (case m (line_id x) of None \<Rightarrow> 0 | Some v \<Rightarrow> fst v)"
  by (simp add: annotate_def split: option.splits prod.splits)

lemma sum_list_annotate:
  assumes dl: "distinct (map line_id ls)" and di: "distinct ids"
    and sub: "set ids \<subseteq> line_id ` set ls" and len: "length ids = length vals"
  shows "sum_list (map (\<lambda>x. line_fee_amount (annotate (map_of (zip ids vals)) x)) ls)
           = sum_list (map line_fee_amount ls) + sum_list (map fst vals)"
proof -
  let ?m = "map_of (zip ids vals)"
  let ?h = "\<lambda>k. case ?m k of None \<Rightarrow> (0::money) | Some v \<Rightarrow> fst v"
  have "sum_list (map (\<lambda>x. line_fee_amount (annotate ?m x)) ls)
          = sum_list (map line_fee_amount ls) + sum_list (map ?h (map line_id ls))"
    by (simp add: line_fee_amount_annotate sum_list_addf comp_def)
  also have "sum_list (map ?h (map line_id ls)) = sum ?h (set (map line_id ls))"
    using dl by (rule sum_list_distinct_conv_sum_set)
  also have "\<dots> = sum ?h (set ids)"
  proof (rule sum.mono_neutral_right)
    show "finite (set (map line_id ls))" by simp
    show "set ids \<subseteq> set (map line_id ls)" using sub by simp
    show "\<forall>i \<in> set (map line_id ls) - set ids. ?h i = 0"
    proof
      fix i assume "i \<in> set (map line_id ls) - set ids"
      then have "i \<notin> set ids" by simp
      with len have "?m i = None" by (simp add: map_of_zip_is_None)
      then show "?h i = 0" by simp
    qed
  qed
  also have "\<dots> = sum_list (map ?h ids)"
    using di by (rule sum_list_distinct_conv_sum_set [symmetric])
  also have "map ?h ids = map fst vals"
  proof (rule nth_equalityI)
    show "length (map ?h ids) = length (map fst vals)" using len by simp
    fix i assume "i < length (map ?h ids)"
    then have i: "i < length vals" "i < length ids" using len by simp_all
    have "?m (ids ! i) = Some (vals ! i)"
      using len di i(1) by (rule map_of_zip_nth)
    with i show "map ?h ids ! i = map fst vals ! i" by simp
  qed
  finally show ?thesis .
qed

lemma quantize_round_down_le:
  "0 \<le> a \<Longrightarrow> 0 \<le> quantize_round_down a \<and> quantize_round_down a \<le> a"
proof -
  assume a: "0 \<le> a"
  have "of_int \<lfloor>a * 100\<rfloor> \<le> a * 100" by (rule of_int_floor_le)
  moreover have "(0::rat) \<le> of_int \<lfloor>a * 100\<rfloor>" using a by simp
  ultimately show ?thesis using a
    by (simp add: quantize_round_down_def field_simps)
qed


lemma all_lines_apply_fee_to_basket [simp]:
  "all_lines (apply_fee_to_basket b f a q) = all_lines b"
  by (simp add: apply_fee_to_basket_def Let_def)

text \<open>
  C1. Let \<open>AbsoluteFee.apply\<close> be called on a basket whose lines have distinct keys, with
  a nonzero effective fee amount and a non-empty selection of lines, and let the divisor
  \<open>num_affected\<close> be nonzero unless a single line is covered (then nothing is divided);
  this is so whenever every line has a positive quantity. Then the call returns
  \<open>BasketFee(fee_amount)\<close>; every covered line but the last has its fee annotation
  raised by the rounded share \<open>round(fee_amount * quantity / num_affected)\<close>, the last
  covered line by the fee amount less the fragments assigned before; lines that are not
  covered are left as they are; and the fragments, as well as the increase of the
  annotations summed over the basket, equal the fee amount exactly. This holds for every
  rounding function; the default one rounds a non-negative share down.
\<close>

theorem absolute_fee_apply_exact:
  assumes ids: "distinct (map line_id (all_lines b))"
    and fa: "spec_effective_fee_amount self fee_amount max_total_fee = fa" "fa \<noteq> 0"
    and lts: "get_applicable_lines self offer b (cond_range cond) = Inr line_tuples"
    and ne: "line_tuples \<noteq> []"
    and cov: "cover_loop (isinstance_oscar_coverage klass) (py_int (cond_value cond))
                 line_tuples 0 []
               = (num_affected, covered_lines)"
    and nz: "num_affected \<noteq> 0 \<or> length covered_lines = 1"
  shows "\<exists>b'. absolute_fee_apply env self b klass cond offer fee_amount max_total_fee
               = Inr (BasketFee fa, b')
     \<and> length (all_lines b') = length (all_lines b)
     \<and> sum_list (map line_fee_amount (all_lines b'))
         = sum_list (map line_fee_amount (all_lines b)) + fa
     \<and> sum_list (spec_fragments env fa num_affected covered_lines) = fa
     \<and> (\<forall>j < length (all_lines b). \<forall>i < length covered_lines.
           line_id (all_lines b ! j) = line_id (fst (snd (covered_lines ! i))) \<longrightarrow>
             line_fee_amount (all_lines b' ! j)
               = line_fee_amount (all_lines b ! j)
                 + spec_fragments env fa num_affected covered_lines ! i
           \<and> line_fee_quantity (all_lines b' ! j)
               = line_fee_quantity (all_lines b ! j) + snd (snd (covered_lines ! i)))
     \<and> (\<forall>j < length (all_lines b).
           line_id (all_lines b ! j) \<notin> (\<lambda>c. line_id (fst (snd c))) ` set covered_lines \<longrightarrow>
             all_lines b' ! j = all_lines b ! j)
     \<and> (OSCAR_OFFER_ROUNDING_FUNCTION env = None \<and> 0 < fa \<longrightarrow>
          (\<forall>i. Suc i < length covered_lines \<longrightarrow>
             0 \<le> spec_fragments env fa num_affected covered_lines ! i
           \<and> spec_fragments env fa num_affected covered_lines ! i
               \<le> fa * of_int (snd (snd (covered_lines ! i))) / of_int num_affected))"
proof -
  let ?cov = "isinstance_oscar_coverage klass"
  let ?ids = "map (\<lambda>c. line_id (fst (snd c))) covered_lines"
  let ?qs = "map (\<lambda>c. snd (snd c)) covered_lines"
  let ?frags = "spec_fragments env fa num_affected covered_lines"
  let ?M = "map_of (zip ?ids (zip ?frags ?qs))"
  let ?B = "b\<lparr>all_lines := map (annotate ?M) (all_lines b)\<rparr>"
  let ?b' = "apply_fee_to_basket ?B self fa 1"
  from get_applicable_lines_Inr [OF lts ne] obtain rng where
    L: "line_tuples = sort_key fst (map (\<lambda>l. (unit_effective_price l, l))
                                      (filter (spec_selected rng) (all_lines b)))"
    by blast
  from cover_loop_prefix [OF cov] ne obtain k where
    k: "k \<le> length line_tuples"
       "covered_lines = map (\<lambda>t. (fst t, snd t, spec_quantity_affected ?cov t))
                          (take k line_tuples)"
       "num_affected = sum_list (map (spec_quantity_affected ?cov) (take k line_tuples))"
       "0 < k"
    by auto
  have cne: "covered_lines \<noteq> []"
    using k(1,2,4) ne by (cases line_tuples) auto
  have len: "length ?frags = length covered_lines"
    using cne by (simp add: spec_fragments_from)
  have ids_eq: "?ids = take k (map (\<lambda>t. line_id (snd t)) line_tuples)"
    by (simp add: k(2) take_map comp_def)
  have dist: "distinct ?ids"
    unfolding ids_eq L by (intro distinct_take selected_ids ids)
  have tuples_in: "snd t \<in> set (all_lines b)" if "t \<in> set line_tuples" for t
    using that by (auto simp: L)
  have sub: "set ?ids \<subseteq> line_id ` set (all_lines b)"
  proof
    fix x assume "x \<in> set ?ids"
    then obtain t where "t \<in> set (take k line_tuples)" "x = line_id (snd t)"
      by (auto simp: k(2))
    then show "x \<in> line_id ` set (all_lines b)"
      using tuples_in [of t] by (auto dest: in_set_takeD)
  qed
  have "0 \<le> num_affected"
    unfolding k(3) by (rule sum_list_nonneg) (auto simp: spec_quantity_affected_def)
  then have pos: "0 < num_affected" if "Suc i < length covered_lines" for i
    using nz that by simp
  have alloc: "allocate_loop env fa num_affected (fst (snd (last covered_lines)))
                 covered_lines 0 b = Inr (fa, ?B)"
    using dist cne nz
    by (subst allocate_loop_lines) (simp_all add: spec_fragments_from)
  have run: "absolute_fee_apply env self b klass cond offer fee_amount max_total_fee
               = Inr (BasketFee fa, ?b')"
    using fa lts ne cov cne alloc
    by (simp add: absolute_fee_apply_def spec_effective_fee_amount_def Let_def py_last_def
          split_beta)
  have lines: "all_lines ?b' = map (annotate ?M) (all_lines b)"
    by simp
  have lookup: "?M (?ids ! i) = Some (?frags ! i, ?qs ! i)" if "i < length covered_lines" for i
  proof -
    have "?M (?ids ! i) = Some (zip ?frags ?qs ! i)"
      using dist that len by (intro map_of_zip_nth) simp_all
    then show ?thesis using that len by simp
  qed
  have sum_frags: "sum_list ?frags = fa"
    by (simp add: spec_fragments_from sum_list_fragments_from)
  have sum_lines: "sum_list (map line_fee_amount (all_lines ?b'))
         = sum_list (map line_fee_amount (all_lines b)) + fa"
  proof -
    have "sum_list (map (\<lambda>x. line_fee_amount (annotate ?M x)) (all_lines b))
            = sum_list (map line_fee_amount (all_lines b))
              + sum_list (map fst (zip ?frags ?qs))"
      using ids dist sub len by (intro sum_list_annotate) simp_all
    also have "map fst (zip ?frags ?qs) = ?frags"
      using len by (intro map_fst_zip) simp
    finally show ?thesis
      by (simp add: lines comp_def sum_frags)
  qed
  have per_line: "line_fee_amount (all_lines ?b' ! j)
               = line_fee_amount (all_lines b ! j) + ?frags ! i
           \<and> line_fee_quantity (all_lines ?b' ! j)
               = line_fee_quantity (all_lines b ! j) + snd (snd (covered_lines ! i))"
    if "j < length (all_lines b)" "i < length covered_lines"
      "line_id (all_lines b ! j) = line_id (fst (snd (covered_lines ! i)))" for i j
  proof -
    have "?M (line_id (all_lines b ! j)) = Some (?frags ! i, ?qs ! i)"
      using lookup [OF that(2)] that(2,3) by simp
    with that(1,2) show ?thesis
      by (simp add: lines annotate_def)
  qed
  have others: "all_lines ?b' ! j = all_lines b ! j"
    if "j < length (all_lines b)"
      "line_id (all_lines b ! j) \<notin> (\<lambda>c. line_id (fst (snd c))) ` set covered_lines" for j
  proof -
    have "?M (line_id (all_lines b ! j)) = None"
      using that(2) len by (simp add: map_of_zip_is_None)
    with that(1) show ?thesis
      by (simp add: lines annotate_def)
  qed
  have down: "0 \<le> ?frags ! i
           \<and> ?frags ! i \<le> fa * of_int (snd (snd (covered_lines ! i))) / of_int num_affected"
    if "OSCAR_OFFER_ROUNDING_FUNCTION env = None" "0 < fa" "Suc i < length covered_lines" for i
  proof -
    let ?share = "fa * of_int (snd (snd (covered_lines ! i))) / of_int num_affected"
    have i: "i < length (butlast covered_lines)" using that(3) by simp
    then have frag: "?frags ! i = fee_round env ?share"
      by (simp add: spec_fragments_def Let_def nth_append nth_butlast)
    have "0 \<le> snd (snd (covered_lines ! i))"
      using that(3) by (simp add: k(2) spec_quantity_affected_def)
    then have "0 \<le> ?share"
      using that(2) pos [OF that(3)] by simp
    then show ?thesis
      using quantize_round_down_le [of ?share] that(1) by (simp add: frag fee_round_def)
  qed
  show ?thesis
    using run sum_lines sum_frags per_line others down
    by (intro exI [of _ ?b']) (simp add: lines)
qed


theorem absolute_fee_apply_exact_witness:
  "\<exists>b'. absolute_fee_apply example_env (fee example_rule) example_basket CountCondition
            (condition example_rule) example_rule None None = Inr (BasketFee 1, b')
     \<and> sum_list (map line_fee_amount (all_lines b')) = 1
     \<and> line_fee_amount (all_lines b' ! 0) = 19 / 50
     \<and> line_fee_amount (all_lines b' ! 1) = 31 / 50
     \<and> line_fee_quantity (all_lines b' ! 0) = 3
     \<and> line_fee_quantity (all_lines b' ! 1) = 5"
proof -
  have d: "distinct (map line_id (all_lines example_basket))"
    by (simp add: example_basket_def line_a_def line_b_def)
  have f: "spec_effective_fee_amount (fee example_rule) None None = 1"
    by (simp add: spec_effective_fee_amount_def example_rule_def)
  have l: "get_applicable_lines (fee example_rule) example_rule example_basket
             (cond_range (condition example_rule)) = Inr [(2, line_a), (3, line_b)]"
    by (simp add: get_applicable_lines_def example_rule_def example_basket_def line_a_def
          line_b_def)
  have c: "cover_loop (isinstance_oscar_coverage CountCondition)
             (py_int (cond_value (condition example_rule))) [(2, line_a), (3, line_b)] 0 []
           = (8, [(2, line_a, 5), (3, line_b, 3)])"
    by (simp add: py_int_def example_rule_def line_a_def line_b_def)
  have q: "(8::int) \<noteq> 0 \<or> length [(2::money, line_a, 5::int), (3, line_b, 3)] = 1"
    by simp
  have fr: "spec_fragments example_env 1 8 [(2, line_a, 5), (3, line_b, 3)] = [31 / 50, 19 / 50]"
    by (simp add: spec_fragments_def fee_round_def example_env_def quantize_round_down_def
          floor_eq_iff)
  have z: "line_fee_amount line_a = 0" "line_fee_amount line_b = 0"
      "line_fee_quantity line_a = 0" "line_fee_quantity line_b = 0"
      "line_id line_a = 1" "line_id line_b = 2"
    by (simp_all add: line_fee_amount_def line_fee_quantity_def line_a_def line_b_def)
  from absolute_fee_apply_exact [OF d f _ l _ c q, of example_env] obtain b' where
    r: "absolute_fee_apply example_env (fee example_rule) example_basket CountCondition
            (condition example_rule) example_rule None None = Inr (BasketFee 1, b')"
    and s: "sum_list (map line_fee_amount (all_lines b'))
         = sum_list (map line_fee_amount (all_lines example_basket)) + 1"
    and p: "\<forall>j < length (all_lines example_basket).
          \<forall>i < length [(2::money, line_a, 5::int), (3, line_b, 3)].
           line_id (all_lines example_basket ! j)
             = line_id (fst (snd ([(2::money, line_a, 5::int), (3, line_b, 3)] ! i))) \<longrightarrow>
             line_fee_amount (all_lines b' ! j)
               = line_fee_amount (all_lines example_basket ! j)
                 + spec_fragments example_env 1 8 [(2, line_a, 5), (3, line_b, 3)] ! i
           \<and> line_fee_quantity (all_lines b' ! j)
               = line_fee_quantity (all_lines example_basket ! j)
                 + snd (snd ([(2::money, line_a, 5::int), (3, line_b, 3)] ! i))"
    by auto
  from p [rule_format, of 0 1] p [rule_format, of 1 0] r s show ?thesis
    by (intro exI [of _ b']) (simp add: fr z example_basket_def)
qed


text \<open>When every line of the basket has a positive quantity the divisor is positive.\<close>

lemma cover_loop_num_affected_pos:
  assumes "cover_loop coverage perm lts 0 [] = (n, cs)" "lts \<noteq> []"
    and "coverage \<or> (\<forall>t \<in> set lts. 0 < quantity (snd t))"
  shows "0 < n"
proof -
  from cover_loop_prefix [OF assms(1)] assms(2) obtain k where
    k: "n = sum_list (map (spec_quantity_affected coverage) (take k lts))" "0 < k"
    by auto
  show ?thesis
    unfolding k(1)
  proof (rule sum_list_pos)
    show "take k lts \<noteq> []" using k(2) assms(2) by (cases lts) auto
    fix t assume "t \<in> set (take k lts)"
    then have "t \<in> set lts" by (rule in_set_takeD)
    with assms(3) show "0 < spec_quantity_affected coverage t"
      by (auto simp: spec_quantity_affected_def)
  qed
qed

subsection \<open>The applicator loop\<close>

lemma map_of_add:
  "map_of (add apps f res) k =
     (if k = rule_id f
      then Some ((case map_of apps (rule_id f) of
                    None \<Rightarrow> \<lparr>app_fee = f, app_result = res, app_name = name f,
                              app_description = result_description res, freq = 0, amount = 0\<rparr>
                  | Some a \<Rightarrow> a)
                 \<lparr>amount := amount (case map_of apps (rule_id f) of
                                      None \<Rightarrow> \<lparr>app_fee = f, app_result = res, app_name = name f,
                                                app_description = result_description res,
                                                freq = 0, amount = 0\<rparr>
                                    | Some a \<Rightarrow> a) + result_fee res,
                   freq := freq (case map_of apps (rule_id f) of
                                   None \<Rightarrow> \<lparr>app_fee = f, app_result = res, app_name = name f,
                                             app_description = result_description res,
                                             freq = 0, amount = 0\<rparr>
                                 | Some a \<Rightarrow> a) + 1\<rparr>)
      else map_of apps k)"
  by (auto simp: add_def Let_def update_conv' split: option.splits)

lemma ledger_freq_add:
  "ledger_freq (add apps f res) k = ledger_freq apps k + (if k = rule_id f then 1 else 0)"
  by (simp add: ledger_freq_def map_of_add split: option.splits)

lemma ledger_amount_add:
  "ledger_amount (add apps f res) k
     = ledger_amount apps k + (if k = rule_id f then result_fee res else 0)"
  by (simp add: ledger_amount_def map_of_add split: option.splits)

lemma absolute_fee_apply_result:
  "absolute_fee_apply env self b klass cond offer fa mt = Inr (res, b') \<Longrightarrow>
     \<exists>a. res = BasketFee a"
  by (auto simp: absolute_fee_apply_def Let_def bindE_Inr_iff ZERO_FEE_def
      split: if_splits prod.splits)

lemma apply_fee_result:
  assumes "apply_fee env self b = Inr (res, b')"
  shows "\<exists>a. res = BasketFee a"
proof (cases "is_condition_satisfied env self b = Inr True")
  case False
  with assms show ?thesis
    by (auto simp: apply_fee_def bindE_Inr_iff ZERO_FEE_def split: if_splits)
next
  case True
  with assms obtain fklass klass where
    r: "(case fklass of
           PercentageFee \<Rightarrow>
             percentage_fee_apply env (fee self) b klass (condition self) self
         | AbsoluteFee \<Rightarrow>
             absolute_fee_apply env (fee self) b klass (condition self) self None None)
        = Inr (res, b')"
    by (auto simp: apply_fee_def bindE_Inr_iff)
  then show ?thesis
    by (cases fklass) (auto simp: percentage_fee_apply_def dest: absolute_fee_apply_result)
qed

lemma allocate_loop_frame:
  "allocate_loop env fa na ll cs applied b = Inr (applied', b') \<Longrightarrow>
     \<exists>ls. b' = b\<lparr>all_lines := ls\<rparr> \<and> map line_id ls = map line_id (all_lines b)"
proof (induction cs arbitrary: applied b)
  case Nil
  then have "b' = b\<lparr>all_lines := all_lines b\<rparr>" by simp
  then show ?case by blast
next
  case (Cons c cs)
  obtain price l qty where c: "c = (price, l, qty)" by (cases c) auto
  from Cons.prems obtain line_fee where
    "allocate_loop env fa na ll cs (applied + line_fee)
       (update_line b l (\<lambda>x. apply_fee_to_line x line_fee qty)) = Inr (applied', b')"
    by (auto simp: c bindE_Inr_iff)
  from Cons.IH [OF this] obtain ls where
    "b' = (update_line b l (\<lambda>x. apply_fee_to_line x line_fee qty))\<lparr>all_lines := ls\<rparr>"
    "map line_id ls
       = map line_id (all_lines (update_line b l (\<lambda>x. apply_fee_to_line x line_fee qty)))"
    by blast
  then have "b' = b\<lparr>all_lines := ls\<rparr> \<and> map line_id ls = map line_id (all_lines b)"
    by (simp add: update_line_def comp_def apply_fee_to_line_def Let_def cong: map_cong)
  then show ?case by blast
qed

lemma absolute_fee_apply_frame:
  assumes "absolute_fee_apply env self b klass cond offer fa mt = Inr (res, b')"
  shows "total_test b' = total_test b \<and> fee_applications b' = fee_applications b
     \<and> map line_id (all_lines b') = map line_id (all_lines b)"
proof (cases "b' = b")
  case True
  then show ?thesis by simp
next
  case False
  with assms obtain a na ll cs applied' b1 where
    "allocate_loop env a na ll cs 0 b = Inr (applied', b1)"
    "b' = apply_fee_to_basket b1 self a 1"
    by (auto simp: absolute_fee_apply_def Let_def bindE_Inr_iff
        split: if_splits prod.splits)
  moreover from allocate_loop_frame [OF this(1)] obtain ls where
    "b1 = b\<lparr>all_lines := ls\<rparr>" "map line_id ls = map line_id (all_lines b)"
    by blast
  ultimately show ?thesis
    by (simp add: apply_fee_to_basket_def Let_def)
qed

lemma apply_fee_frame:
  assumes "apply_fee env self b = Inr (res, b')"
  shows "total_test b' = total_test b \<and> fee_applications b' = fee_applications b
     \<and> map line_id (all_lines b') = map line_id (all_lines b)"
proof (cases "is_condition_satisfied env self b = Inr True")
  case False
  with assms show ?thesis
    by (auto simp: apply_fee_def bindE_Inr_iff split: if_splits)
next
  case True
  with assms obtain fklass klass where
    r: "(case fklass of
           PercentageFee \<Rightarrow>
             percentage_fee_apply env (fee self) b klass (condition self) self
         | AbsoluteFee \<Rightarrow>
             absolute_fee_apply env (fee self) b klass (condition self) self None None)
        = Inr (res, b')"
    by (auto simp: apply_fee_def bindE_Inr_iff)
  then show ?thesis
    by (cases fklass) (auto simp: percentage_fee_apply_def dest: absolute_fee_apply_frame)
qed

lemma apply_loop_stop:
  "get_max_applications f (owner b) = Inr m \<Longrightarrow> \<not> n < m \<Longrightarrow>
     apply_loop env f n b apps = Inr (n, b, apps)"
  by (subst apply_loop.simps) simp

lemma apply_loop_step:
  "get_max_applications f (owner b) = Inr m \<Longrightarrow> n < m \<Longrightarrow>
   apply_fee env f b = Inr (res, b1) \<Longrightarrow>
     apply_loop env f n b apps =
       (if \<not> is_successful res then Inr (n + 1, b1, apps)
        else if is_final res
        then Inr (n + 1, b1\<lparr>total_test := total_test b1 + 1\<rparr>, add apps f res)
        else apply_loop env f (n + 1) (b1\<lparr>total_test := total_test b1 + 1\<rparr>)
               (add apps f res))"
  by (subst apply_loop.simps) (simp add: Let_def)

lemma apply_loop_Inr_cases:
  assumes "apply_loop env f n b apps = Inr r"
  obtains m where "get_max_applications f (owner b) = Inr m" "\<not> n < m"
  | m res b1 where "get_max_applications f (owner b) = Inr m" "n < m"
      "apply_fee env f b = Inr (res, b1)"
proof -
  from assms obtain m where m: "get_max_applications f (owner b) = Inr m"
    by (subst (asm) apply_loop.simps) (auto simp: bindE_Inr_iff)
  show ?thesis
  proof (cases "n < m")
    case False
    with m that(1) show ?thesis by blast
  next
    case True
    with assms m obtain x where "apply_fee env f b = Inr x"
      by (subst (asm) apply_loop.simps) (auto simp: bindE_Inr_iff)
    with m True that(2) show ?thesis by (cases x) blast
  qed
qed


lemma apply_loop_bounds:
  assumes "apply_loop env f n b apps = Inr (n', b', apps')"
    and "get_max_applications f (owner b) = Inr m"
  shows "n \<le> n' \<and> n' \<le> max n m \<and> owner b' = owner b
     \<and> ledger_freq apps (rule_id f) \<le> ledger_freq apps' (rule_id f)
     \<and> ledger_freq apps' (rule_id f) \<le> ledger_freq apps (rule_id f) + (n' - n)
     \<and> ledger_freq apps (rule_id f) + (n' - n) \<le> ledger_freq apps' (rule_id f) + 1
     \<and> (\<forall>k. k \<noteq> rule_id f \<longrightarrow> map_of apps' k = map_of apps k)
     \<and> total_test b' = total_test b
          + (ledger_freq apps' (rule_id f) - ledger_freq apps (rule_id f))
     \<and> ledger_amount apps (rule_id f) \<le> ledger_amount apps' (rule_id f)
     \<and> (ledger_freq apps' (rule_id f) = ledger_freq apps (rule_id f) \<longrightarrow> apps' = apps)
     \<and> (ledger_freq apps (rule_id f) < ledger_freq apps' (rule_id f) \<longrightarrow>
          ledger_amount apps (rule_id f) < ledger_amount apps' (rule_id f))"
  using assms
proof (induction env f n b apps arbitrary: n' b' apps' rule: apply_loop.induct)
  case (1 env f n b apps)
  note m = "1.prems"(2)
  show ?case
  proof (cases "n < m")
    case False
    with "1.prems" have "n' = n" "b' = b" "apps' = apps"
      by (simp_all add: apply_loop_stop)
    with False show ?thesis by simp
  next
    case True
    from "1.prems"(1) m True obtain res b1 where af: "apply_fee env f b = Inr (res, b1)"
      by (elim apply_loop_Inr_cases) auto
    have o1: "owner b1 = owner b" by (rule apply_fee_owner [OF af])
    note step = apply_loop_step [OF m True af, of apps]
    show ?thesis
    proof (cases "is_successful res")
      case False
      with "1.prems"(1) step have "n' = n + 1" "b' = b1" "apps' = apps" by simp_all
      with True o1 apply_fee_frame [OF af] show ?thesis by simp
    next
      case succ: True
      then have pos: "0 < result_fee res" by (cases res) simp_all
      let ?b2 = "b1\<lparr>total_test := total_test b1 + 1\<rparr>"
      let ?apps2 = "add apps f res"
      have tt: "total_test b1 = total_test b"
        using apply_fee_frame [OF af] by simp
      show ?thesis
      proof (cases "is_final res")
        case True
        with "1.prems"(1) step succ have "n' = n + 1" "b' = ?b2" "apps' = ?apps2" by simp_all
        with \<open>n < m\<close> o1 pos tt show ?thesis
          by (auto simp: ledger_freq_add ledger_amount_add map_of_add)
      next
        case False
        with "1.prems"(1) step succ have
          rec: "apply_loop env f (n + 1) ?b2 ?apps2 = Inr (n', b', apps')" by simp
        have m2: "get_max_applications f (owner ?b2) = Inr m" using m o1 by simp
        from "1.IH" [OF m \<open>n < m\<close> af refl refl _ refl refl False rec m2] succ
        have ih: "n + 1 \<le> n' \<and> n' \<le> max (n + 1) m \<and> owner b' = owner ?b2
           \<and> ledger_freq ?apps2 (rule_id f) \<le> ledger_freq apps' (rule_id f)
           \<and> ledger_freq apps' (rule_id f) \<le> ledger_freq ?apps2 (rule_id f) + (n' - (n + 1))
           \<and> ledger_freq ?apps2 (rule_id f) + (n' - (n + 1))
                \<le> ledger_freq apps' (rule_id f) + 1
           \<and> (\<forall>k. k \<noteq> rule_id f \<longrightarrow> map_of apps' k = map_of ?apps2 k)
           \<and> total_test b' = total_test ?b2
                + (ledger_freq apps' (rule_id f) - ledger_freq ?apps2 (rule_id f))
           \<and> ledger_amount ?apps2 (rule_id f) \<le> ledger_amount apps' (rule_id f)
           \<and> (ledger_freq apps' (rule_id f) = ledger_freq ?apps2 (rule_id f)
                \<longrightarrow> apps' = ?apps2)
           \<and> (ledger_freq ?apps2 (rule_id f) < ledger_freq apps' (rule_id f) \<longrightarrow>
                ledger_amount ?apps2 (rule_id f) < ledger_amount apps' (rule_id f))"
          by simp
        with \<open>n < m\<close> o1 pos tt show ?thesis
          by (auto simp: ledger_freq_add ledger_amount_add map_of_add)
      qed
    qed
  qed
qed


lemma apply_loop_once:
  assumes "apply_loop env f n b apps = Inr (n', b', apps')"
  shows "n' \<le> n + 1"
proof -
  from assms show ?thesis
  proof (cases rule: apply_loop_Inr_cases)
    case (1 m)
    with assms show ?thesis by (simp add: apply_loop_stop)
  next
    case (2 m res b1)
    from apply_fee_result [OF 2(3)] obtain a where "res = BasketFee a" by blast
    with assms apply_loop_step [OF 2, of apps] show ?thesis
      by (simp split: if_splits)
  qed
qed

lemma ledger_freq_cong:
  "map_of apps' k = map_of apps k \<Longrightarrow> ledger_freq apps' k = ledger_freq apps k"
  by (simp add: ledger_freq_def)

lemma apply_fees_loop_freq:
  assumes "apply_fees_loop env fees b apps = Inr (b', apps')"
    and "distinct (map rule_id fees)"
  shows "owner b' = owner b
     \<and> (\<forall>k. k \<notin> rule_id ` set fees \<longrightarrow> map_of apps' k = map_of apps k)
     \<and> (\<forall>f \<in> set fees. \<exists>m. get_max_applications f (owner b) = Inr m
            \<and> ledger_freq apps (rule_id f) \<le> ledger_freq apps' (rule_id f)
            \<and> ledger_freq apps' (rule_id f) \<le> ledger_freq apps (rule_id f) + max 0 m
            \<and> ledger_freq apps' (rule_id f) \<le> ledger_freq apps (rule_id f) + 1)"
  using assms
proof (induction fees arbitrary: b apps)
  case Nil
  then show ?case by simp
next
  case (Cons f fees)
  from Cons.prems(1) obtain n1 b1 apps1 where
    l: "apply_loop env f 0 b apps = Inr (n1, b1, apps1)"
    and r: "apply_fees_loop env fees b1 apps1 = Inr (b', apps')"
    by (auto simp: bindE_Inr_iff)
  from l obtain m where m: "get_max_applications f (owner b) = Inr m"
    by (elim apply_loop_Inr_cases) auto
  note lb = apply_loop_bounds [OF l m]
  note once = apply_loop_once [OF l]
  from Cons.prems(2) have d: "distinct (map rule_id fees)"
    and nf: "rule_id f \<notin> rule_id ` set fees" by simp_all
  note ih = Cons.IH [OF r d]
  have o: "owner b1 = owner b" using lb by simp
  have same_f: "ledger_freq apps' (rule_id f) = ledger_freq apps1 (rule_id f)"
    using ih nf by (intro ledger_freq_cong) simp
  have head: "\<exists>m. get_max_applications f (owner b) = Inr m
            \<and> ledger_freq apps (rule_id f) \<le> ledger_freq apps' (rule_id f)
            \<and> ledger_freq apps' (rule_id f) \<le> ledger_freq apps (rule_id f) + max 0 m
            \<and> ledger_freq apps' (rule_id f) \<le> ledger_freq apps (rule_id f) + 1"
    using m lb once unfolding same_f by (intro exI [of _ m]) auto
  have tail: "\<exists>m. get_max_applications g (owner b) = Inr m
            \<and> ledger_freq apps (rule_id g) \<le> ledger_freq apps' (rule_id g)
            \<and> ledger_freq apps' (rule_id g) \<le> ledger_freq apps (rule_id g) + max 0 m
            \<and> ledger_freq apps' (rule_id g) \<le> ledger_freq apps (rule_id g) + 1"
    if g: "g \<in> set fees" for g
  proof -
    from g have "rule_id g \<in> rule_id ` set fees" by (rule imageI)
    with nf have "rule_id g \<noteq> rule_id f" by metis
    with lb have "ledger_freq apps1 (rule_id g) = ledger_freq apps (rule_id g)"
      by (intro ledger_freq_cong) simp
    with ih g o show ?thesis by auto
  qed
  have others: "map_of apps' k = map_of apps k" if "k \<notin> rule_id ` set (f # fees)" for k
  proof -
    from that have "k \<noteq> rule_id f" "k \<notin> rule_id ` set fees" by auto
    with ih lb show ?thesis by simp
  qed
  show ?case
    using ih o head tail others by auto
qed

subsection \<open>The example rule on the example basket\<close>

lemma example_apply_fee:
  "apply_fee example_env (example_rule\<lparr>max_basket_applications := mb\<rparr>) example_basket
     = Inr (BasketFee 1, example_basket_after)"
  by (simp add: py_int_def line_a_def line_b_def example_basket_def example_env_def
        example_rule_def apply_fee_def is_condition_satisfied_def condition_proxy_def
        fee_proxy_def absolute_fee_apply_def get_applicable_lines_def py_last_def
        update_line_def apply_fee_to_line_def apply_fee_to_basket_def line_eq_def
        fee_round_def quantize_round_down_def Let_def example_basket_after_def floor_eq_iff)

lemma example_max_applications:
  "get_max_applications (example_rule\<lparr>max_basket_applications := mb\<rparr>) None
     = Inr (case mb of None \<Rightarrow> 10000 | Some k \<Rightarrow> if k = 0 then 10000 else min 10000 (int k))"
  by (auto simp: get_max_applications_def example_rule_def truthy_nat_def truthy_money_def
        Let_def min.commute split: option.splits)

lemma example_apply_loop:
  assumes "mb = None \<or> mb = Some 1"
  shows "apply_loop example_env (example_rule\<lparr>max_basket_applications := mb\<rparr>) 0
     example_basket []
   = Inr (1, example_basket_after\<lparr>total_test := 1\<rparr>,
          [(7, \<lparr>app_fee = example_rule\<lparr>max_basket_applications := mb\<rparr>,
                app_result = BasketFee 1, app_name = ''handling'', app_description = None,
                freq = 1, amount = 1\<rparr>)])"
proof -
  have o: "owner example_basket = None" by (simp add: example_basket_def)
  note m = example_max_applications [of mb, folded o]
  from assms have lt: "(0::int) < (case mb of None \<Rightarrow> 10000
                            | Some k \<Rightarrow> if k = 0 then 10000 else min 10000 (int k))"
    by auto
  show ?thesis
    by (subst apply_loop_step [OF m lt example_apply_fee])
       (simp_all add: add_def example_rule_def example_basket_after_def example_basket_def
          Let_def)
qed

lemma example_apply_fees:
  "apply_fees example_env example_basket [example_rule]
   = Inr (example_basket_after
            \<lparr>total_test := 1,
             fee_applications :=
               Some [(7, \<lparr>app_fee = example_rule, app_result = BasketFee 1,
                           app_name = ''handling'', app_description = None,
                           freq = 1, amount = 1\<rparr>)]\<rparr>)"
proof -
  have e: "example_rule\<lparr>max_basket_applications := None\<rparr> = example_rule"
    by (simp add: example_rule_def)
  from example_apply_loop [of None] show ?thesis
    by (simp add: apply_fees_def e)
qed

lemma example_zero_loop:
  "apply_loop example_env (example_rule\<lparr>fee := (fee example_rule)\<lparr>fee_value := 0\<rparr>\<rparr>) 0
     example_basket [] = Inr (1, example_basket, [])"
proof -
  let ?r = "example_rule\<lparr>fee := (fee example_rule)\<lparr>fee_value := 0\<rparr>\<rparr>"
  have m: "get_max_applications ?r (owner example_basket) = Inr 10000"
    by (simp add: get_max_applications_def example_rule_def truthy_nat_def truthy_money_def
          Let_def)
  have a: "apply_fee example_env ?r example_basket = Inr (ZERO_FEE, example_basket)"
    by (simp add: apply_fee_def is_condition_satisfied_def condition_proxy_def fee_proxy_def
          absolute_fee_apply_def example_rule_def example_env_def)
  show ?thesis
    by (subst apply_loop_step [OF m _ a]) (simp_all add: ZERO_FEE_def)
qed


subsection \<open>Repetition of a rule\<close>

lemma get_max_applications_le_basket:
  assumes "get_max_applications f u = Inr m" "max_basket_applications f = Some k" "k \<noteq> 0"
  shows "m \<le> int k"
proof -
  have "int k \<in> spec_limits f" using assms(2,3) by (simp add: spec_limits_def)
  then have "Min (spec_limits f) \<le> int k"
    by (intro Min_le spec_limits_finite)
  with assms(1) show ?thesis
    by (auto simp: get_max_applications_eq split: if_splits)
qed


text \<open>
  C2. The \<open>while\<close> loop of one rule, started with \<open>num_applications = 0\<close>, ends with
  \<open>num_applications\<close>, the number of calls of \<open>apply_fee\<close> it made, at most
  \<open>get_max_applications(basket.owner)\<close> (and at least 0); with
  \<open>max_basket_applications = 1\<close> that is at most one call. The ledger entry of the rule
  grows by at most one per call, and all calls but possibly the last are recorded: an
  unsuccessful result is not recorded and ends the loop. Every recorded result has a
  positive fee. Over a whole pass on rules with distinct ids, no rule is recorded more
  often than \<open>get_max_applications\<close> allows.
\<close>

theorem apply_loop_limit:
  "(apply_loop env f 0 b apps = Inr (n', b', apps') \<longrightarrow>
      (\<exists>m. get_max_applications f (owner b) = Inr m \<and> 0 \<le> n' \<and> n' \<le> max 0 m
         \<and> (max_basket_applications f = Some 1 \<longrightarrow> n' \<le> 1))
      \<and> ledger_freq apps (rule_id f) \<le> ledger_freq apps' (rule_id f)
      \<and> ledger_freq apps' (rule_id f) \<le> ledger_freq apps (rule_id f) + n'
      \<and> ledger_freq apps (rule_id f) + n' \<le> ledger_freq apps' (rule_id f) + 1
      \<and> (ledger_freq apps' (rule_id f) = ledger_freq apps (rule_id f) \<longrightarrow> apps' = apps)
      \<and> (ledger_freq apps (rule_id f) < ledger_freq apps' (rule_id f) \<longrightarrow>
           ledger_amount apps (rule_id f) < ledger_amount apps' (rule_id f))
      \<and> total_test b' = total_test b
           + (ledger_freq apps' (rule_id f) - ledger_freq apps (rule_id f)))
   \<and> (get_max_applications f (owner b) = Inr m \<and> n < m
        \<and> apply_fee env f b = Inr (res, b1) \<and> \<not> is_successful res
        \<longrightarrow> apply_loop env f n b apps = Inr (n + 1, b1, apps))
   \<and> (apply_fees env b fees = Inr b'' \<and> distinct (map rule_id fees) \<longrightarrow>
        (\<exists>ledger. fee_applications b'' = Some ledger
           \<and> (\<forall>g \<in> set fees. \<exists>m. get_max_applications g (owner b) = Inr m
                 \<and> 0 \<le> ledger_freq ledger (rule_id g)
                 \<and> ledger_freq ledger (rule_id g) \<le> max 0 m)))"
proof (intro conjI impI)
  assume l: "apply_loop env f 0 b apps = Inr (n', b', apps')"
  then obtain m where m: "get_max_applications f (owner b) = Inr m"
    by (elim apply_loop_Inr_cases) auto
  note lb = apply_loop_bounds [OF l m]
  have "n' \<le> 1" if "max_basket_applications f = Some 1"
    using get_max_applications_le_basket [OF m that] lb by (auto simp: max_def split: if_splits)
  with m lb show "\<exists>m. get_max_applications f (owner b) = Inr m \<and> 0 \<le> n' \<and> n' \<le> max 0 m
         \<and> (max_basket_applications f = Some 1 \<longrightarrow> n' \<le> 1)"
    by (intro exI [of _ m]) simp
  from lb show "ledger_freq apps (rule_id f) \<le> ledger_freq apps' (rule_id f)" by simp
  from lb show "ledger_freq apps' (rule_id f) \<le> ledger_freq apps (rule_id f) + n'" by simp
  from lb show "ledger_freq apps (rule_id f) + n' \<le> ledger_freq apps' (rule_id f) + 1"
    by simp
  from lb show "apps' = apps" if "ledger_freq apps' (rule_id f) = ledger_freq apps (rule_id f)"
    using that by simp
  from lb show "ledger_amount apps (rule_id f) < ledger_amount apps' (rule_id f)"
    if "ledger_freq apps (rule_id f) < ledger_freq apps' (rule_id f)"
    using that by simp
  from lb show "total_test b' = total_test b
           + (ledger_freq apps' (rule_id f) - ledger_freq apps (rule_id f))"
    by simp
next
  assume "get_max_applications f (owner b) = Inr m \<and> n < m
        \<and> apply_fee env f b = Inr (res, b1) \<and> \<not> is_successful res"
  then show "apply_loop env f n b apps = Inr (n + 1, b1, apps)"
    by (simp add: apply_loop_step)
next
  assume a: "apply_fees env b fees = Inr b'' \<and> distinct (map rule_id fees)"
  then obtain b1 ledger where
    r: "apply_fees_loop env fees b [] = Inr (b1, ledger)"
    and b'': "b'' = b1\<lparr>fee_applications := Some ledger\<rparr>"
    by (auto simp: apply_fees_def bindE_Inr_iff)
  from apply_fees_loop_freq [OF r] a have
    "\<forall>g \<in> set fees. \<exists>m. get_max_applications g (owner b) = Inr m
         \<and> ledger_freq [] (rule_id g) \<le> ledger_freq ledger (rule_id g)
         \<and> ledger_freq ledger (rule_id g) \<le> ledger_freq [] (rule_id g) + max 0 m"
    by blast
  then have "\<forall>g \<in> set fees. \<exists>m. get_max_applications g (owner b) = Inr m
                 \<and> 0 \<le> ledger_freq ledger (rule_id g)
                 \<and> ledger_freq ledger (rule_id g) \<le> max 0 m"
    by (simp add: ledger_freq_def)
  with b'' show "\<exists>ledger. fee_applications b'' = Some ledger
           \<and> (\<forall>g \<in> set fees. \<exists>m. get_max_applications g (owner b) = Inr m
                 \<and> 0 \<le> ledger_freq ledger (rule_id g)
                 \<and> ledger_freq ledger (rule_id g) \<le> max 0 m)"
    by simp
qed

theorem apply_loop_limit_witness:
  "apply_loop example_env (example_rule\<lparr>max_basket_applications := Some 1\<rparr>) 0
     example_basket []
   = Inr (1, example_basket_after\<lparr>total_test := 1\<rparr>,
          [(7, \<lparr>app_fee = example_rule\<lparr>max_basket_applications := Some 1\<rparr>,
                app_result = BasketFee 1, app_name = ''handling'', app_description = None,
                freq = 1, amount = 1\<rparr>)])
   \<and> (\<exists>m. get_max_applications (example_rule\<lparr>max_basket_applications := Some 1\<rparr>)
             (owner example_basket) = Inr m \<and> (1::int) \<le> max 0 m)
   \<and> apply_loop example_env (example_rule\<lparr>fee := (fee example_rule)\<lparr>fee_value := 0\<rparr>\<rparr>) 0
        example_basket [] = Inr (1, example_basket, [])
   \<and> (\<exists>b'' ledger. apply_fees example_env example_basket [example_rule] = Inr b''
         \<and> fee_applications b'' = Some ledger \<and> ledger_freq ledger 7 \<le> 10000)"
proof -
  let ?r1 = "example_rule\<lparr>max_basket_applications := Some 1\<rparr>"
  let ?r0 = "example_rule\<lparr>fee := (fee example_rule)\<lparr>fee_value := 0\<rparr>\<rparr>"
  have o: "owner example_basket = None" by (simp add: example_basket_def)
  have m1: "get_max_applications ?r1 (owner example_basket) = Inr 1"
    using example_max_applications [of "Some 1"] by (simp add: o)
  have m0: "get_max_applications ?r0 (owner example_basket) = Inr 10000"
    by (simp add: get_max_applications_def example_rule_def truthy_nat_def truthy_money_def
          Let_def)
  have me: "get_max_applications example_rule (owner example_basket) = Inr 10000"
    by (simp add: get_max_applications_def example_rule_def truthy_nat_def truthy_money_def
          Let_def)
  have a0: "apply_fee example_env ?r0 example_basket = Inr (ZERO_FEE, example_basket)"
    by (simp add: apply_fee_def is_condition_satisfied_def condition_proxy_def fee_proxy_def
          absolute_fee_apply_def example_rule_def example_env_def)
  have l1: "apply_loop example_env ?r1 0 example_basket []
     = Inr (1, example_basket_after\<lparr>total_test := 1\<rparr>,
          [(7, \<lparr>app_fee = ?r1, app_result = BasketFee 1, app_name = ''handling'',
                app_description = None, freq = 1, amount = 1\<rparr>)])"
    by (rule example_apply_loop) simp
  have l0: "apply_loop example_env ?r0 0 example_basket [] = Inr (1, example_basket, [])"
    using apply_loop_limit [where env = example_env and f = ?r0 and b = example_basket
        and apps = "[]" and m = 10000 and n = 0 and res = ZERO_FEE and ?b1.0 = example_basket]
      m0 a0
    by (simp add: ZERO_FEE_def)
  have id: "rule_id example_rule = 7" by (simp add: example_rule_def)
  from apply_loop_limit [where env = example_env and b = example_basket
      and fees = "[example_rule]" and b'' = "example_basket_after
            \<lparr>total_test := 1,
             fee_applications :=
               Some [(7, \<lparr>app_fee = example_rule, app_result = BasketFee 1,
                           app_name = ''handling'', app_description = None,
                           freq = 1, amount = 1\<rparr>)]\<rparr>"]
    example_apply_fees me id
  have p: "\<exists>b'' ledger. apply_fees example_env example_basket [example_rule] = Inr b''
         \<and> fee_applications b'' = Some ledger \<and> ledger_freq ledger 7 \<le> 10000"
    by auto
  from apply_loop_limit [where env = example_env and f = ?r1 and b = example_basket
      and apps = "[]" and n' = 1 and b' = "example_basket_after\<lparr>total_test := 1\<rparr>"
      and apps' = "[(7, \<lparr>app_fee = ?r1, app_result = BasketFee 1, app_name = ''handling'',
                app_description = None, freq = 1, amount = 1\<rparr>)]"] l1
  have q: "\<exists>m. get_max_applications ?r1 (owner example_basket) = Inr m \<and> (1::int) \<le> max 0 m"
    by blast
  from l1 q l0 p show ?thesis by blast
qed

text \<open>
  C10. Every result of \<open>AbsoluteFee.apply\<close> is a \<open>BasketFee\<close>: it is final, and it is
  successful exactly when its amount is positive. Hence the loop of a rule with an
  absolute fee calls \<open>apply_fee\<close> at most once and records the rule at most once,
  whatever \<open>get_max_applications\<close> returns; and after a whole pass on rules with distinct
  ids such a rule is recorded at most once.
\<close>

theorem absolute_fee_final:
  "(absolute_fee_apply env self b klass cond offer fee_amount max_total_fee = Inr (res, b1)
      \<longrightarrow> is_final res \<and> is_successful res = (0 < result_fee res)
          \<and> (\<exists>a. res = BasketFee a))
   \<and> (fee_proxy (fee f) = Inr AbsoluteFee
        \<and> apply_loop env f 0 b apps = Inr (n', b', apps')
        \<longrightarrow> n' \<le> 1 \<and> ledger_freq apps' (rule_id f) \<le> ledger_freq apps (rule_id f) + 1)
   \<and> (apply_fees env b fees = Inr b'' \<and> distinct (map rule_id fees) \<and> f \<in> set fees
        \<and> fee_proxy (fee f) = Inr AbsoluteFee
        \<longrightarrow> (\<exists>ledger. fee_applications b'' = Some ledger
               \<and> ledger_freq ledger (rule_id f) \<le> 1))"
proof (intro conjI impI)
  assume "absolute_fee_apply env self b klass cond offer fee_amount max_total_fee
            = Inr (res, b1)"
  from absolute_fee_apply_result [OF this] obtain a where a: "res = BasketFee a" by blast
  then show "is_final res" "is_successful res = (0 < result_fee res)" "\<exists>a. res = BasketFee a"
    by simp_all
next
  assume a: "fee_proxy (fee f) = Inr AbsoluteFee
        \<and> apply_loop env f 0 b apps = Inr (n', b', apps')"
  then have l: "apply_loop env f 0 b apps = Inr (n', b', apps')" by simp
  then obtain m where m: "get_max_applications f (owner b) = Inr m"
    by (elim apply_loop_Inr_cases) auto
  from apply_loop_once [OF l] show "n' \<le> 1" by simp
  with apply_loop_bounds [OF l m]
  show "ledger_freq apps' (rule_id f) \<le> ledger_freq apps (rule_id f) + 1" by simp
next
  assume a: "apply_fees env b fees = Inr b'' \<and> distinct (map rule_id fees) \<and> f \<in> set fees
        \<and> fee_proxy (fee f) = Inr AbsoluteFee"
  then obtain b1 ledger where
    r: "apply_fees_loop env fees b [] = Inr (b1, ledger)"
    and b'': "b'' = b1\<lparr>fee_applications := Some ledger\<rparr>"
    by (auto simp: apply_fees_def bindE_Inr_iff)
  from apply_fees_loop_freq [OF r] a have
    "ledger_freq ledger (rule_id f) \<le> ledger_freq [] (rule_id f) + 1"
    by blast
  then have "ledger_freq ledger (rule_id f) \<le> 1"
    by (simp add: ledger_freq_def)
  with b'' show "\<exists>ledger. fee_applications b'' = Some ledger
               \<and> ledger_freq ledger (rule_id f) \<le> 1"
    by simp
qed

theorem absolute_fee_final_witness:
  "get_max_applications example_rule (owner example_basket) = Inr 10000
   \<and> (\<exists>b' apps'. apply_loop example_env example_rule 0 example_basket [] = Inr (1, b', apps')
         \<and> ledger_freq apps' 7 \<le> 1)
   \<and> (\<exists>b'' ledger. apply_fees example_env example_basket [example_rule] = Inr b''
         \<and> fee_applications b'' = Some ledger \<and> ledger_freq ledger 7 \<le> 1)
   \<and> is_final (BasketFee 1)"
proof -
  have me: "get_max_applications example_rule (owner example_basket) = Inr 10000"
    by (simp add: get_max_applications_def example_rule_def truthy_nat_def truthy_money_def
          Let_def)
  have e: "example_rule\<lparr>max_basket_applications := None\<rparr> = example_rule"
    by (simp add: example_rule_def)
  have l: "apply_loop example_env example_rule 0 example_basket []
     = Inr (1, example_basket_after\<lparr>total_test := 1\<rparr>,
          [(7, \<lparr>app_fee = example_rule, app_result = BasketFee 1, app_name = ''handling'',
                app_description = None, freq = 1, amount = 1\<rparr>)])"
    using example_apply_loop [of None] by (simp add: e)
  have fp: "fee_proxy (fee example_rule) = Inr AbsoluteFee"
    by (simp add: fee_proxy_def example_rule_def)
  have id: "rule_id example_rule = 7" by (simp add: example_rule_def)
  have af: "absolute_fee_apply example_env (fee example_rule) example_basket CountCondition
              (condition example_rule) example_rule None None
            = Inr (BasketFee 1, example_basket_after)"
    using example_apply_fee [of None]
    by (simp add: e apply_fee_def is_condition_satisfied_def condition_proxy_def fee_proxy_def
          example_rule_def example_env_def)
  note t = absolute_fee_final [where env = example_env and self = "fee example_rule"
      and b = example_basket and klass = CountCondition and cond = "condition example_rule"
      and offer = example_rule and fee_amount = None and max_total_fee = None
      and res = "BasketFee 1" and ?b1.0 = example_basket_after and f = example_rule
      and apps = "[]" and n' = 1 and b' = "example_basket_after\<lparr>total_test := 1\<rparr>"
      and apps' = "[(7, \<lparr>app_fee = example_rule, app_result = BasketFee 1,
                app_name = ''handling'', app_description = None, freq = 1, amount = 1\<rparr>)]"
      and fees = "[example_rule]" and b'' =
      "example_basket_after
            \<lparr>total_test := 1,
             fee_applications :=
               Some [(7, \<lparr>app_fee = example_rule, app_result = BasketFee 1,
                           app_name = ''handling'', app_description = None,
                           freq = 1, amount = 1\<rparr>)]\<rparr>"]
  from t af have 1: "is_final (BasketFee 1)" by blast
  from t fp l id have 2: "\<exists>b' apps'. apply_loop example_env example_rule 0 example_basket []
        = Inr (1, b', apps') \<and> ledger_freq apps' 7 \<le> 1"
    by (simp add: ledger_freq_def)
  from t fp example_apply_fees id have 3: "\<exists>b'' ledger.
      apply_fees example_env example_basket [example_rule] = Inr b''
         \<and> fee_applications b'' = Some ledger \<and> ledger_freq ledger 7 \<le> 1"
    by auto
  from me 1 2 3 show ?thesis by blast
qed

subsection \<open>Annotations across passes\<close>

lemma reset_line_apply_fee_to_line [simp]:
  "reset_line (apply_fee_to_line x f q) = reset_line x"
  by (simp add: reset_line_def apply_fee_to_line_def Let_def)

lemma reset_line_fields:
  assumes "reset_line x = reset_line y"
  shows "line_id x = line_id y" "quantity x = quantity y"
    "line_product x = line_product y" "unit_effective_price x = unit_effective_price y"
    "quantity_without_discount x = quantity_without_discount y"
proof -
  have "line_id (reset_line x) = line_id (reset_line y)"
       "quantity (reset_line x) = quantity (reset_line y)"
       "line_product (reset_line x) = line_product (reset_line y)"
       "unit_effective_price (reset_line x) = unit_effective_price (reset_line y)"
       "quantity_without_discount (reset_line x) = quantity_without_discount (reset_line y)"
    using assms by simp_all
  then show "line_id x = line_id y" "quantity x = quantity y"
    "line_product x = line_product y" "unit_effective_price x = unit_effective_price y"
    "quantity_without_discount x = quantity_without_discount y"
    by (simp_all add: reset_line_def)
qed

lemma reset_line_fields_simps [simp]:
  "line_id (reset_line x) = line_id x" "quantity (reset_line x) = quantity x"
  "line_product (reset_line x) = line_product x"
  "unit_effective_price (reset_line x) = unit_effective_price x"
  "quantity_without_discount (reset_line x) = quantity_without_discount x"
  "reset_line (reset_line x) = reset_line x"
  by (simp_all add: reset_line_def)

lemma same_lines_refl [simp]: "same_lines b b"
  by (simp add: same_lines_def)

lemma same_lines_sym: "same_lines b c \<Longrightarrow> same_lines c b"
  by (simp add: same_lines_def)

lemma same_lines_trans: "same_lines a b \<Longrightarrow> same_lines b c \<Longrightarrow> same_lines a c"
  by (simp add: same_lines_def)

lemma same_lines_length: "same_lines b c \<Longrightarrow> length (all_lines b) = length (all_lines c)"
  by (auto simp: same_lines_def dest: map_eq_imp_length_eq)

lemma map2_offset_update:
  "map reset_line xs = map reset_line ys \<Longrightarrow>
   map2 line_offset
     (map (\<lambda>x. if line_id x = k then apply_fee_to_line x f q else x) xs)
     (map (\<lambda>x. if line_id x = k then apply_fee_to_line x f q else x) ys)
   = map2 line_offset xs ys"
proof (induction xs arbitrary: ys)
  case Nil
  then show ?case by simp
next
  case (Cons x xs)
  then obtain y ys' where ys: "ys = y # ys'" by (cases ys) auto
  with Cons.prems have r: "reset_line x = reset_line y"
    and rest: "map reset_line xs = map reset_line ys'" by simp_all
  from reset_line_fields(1) [OF r] have "line_id x = line_id y" .
  then show ?case
    using Cons.IH [OF rest] by (simp add: ys line_offset_def)
qed

lemma sim_update_line:
  assumes "sim D b c" "line_id l = line_id l'"
  shows "sim D (update_line b l (\<lambda>x. apply_fee_to_line x f q))
               (update_line c l' (\<lambda>x. apply_fee_to_line x f q))
         \<and> same_lines b (update_line b l (\<lambda>x. apply_fee_to_line x f q))"
  using assms
  by (simp add: sim_def same_lines_def update_line_def map2_offset_update comp_def
        if_distrib [of reset_line] cong: if_cong)

lemma sim_apply_fee_to_basket:
  "sim D b c \<Longrightarrow> sim D (apply_fee_to_basket b f a q) (apply_fee_to_basket c f a q)
     \<and> same_lines b (apply_fee_to_basket b f a q)"
  by (simp add: sim_def same_lines_def)

lemma map_sort_key_invariant:
  assumes "\<And>x. f (g x) = f x"
  shows "map g (sort_key f xs) = sort_key f (map g xs)"
proof (induction xs)
  case Nil
  then show ?case by simp
next
  case (Cons a xs)
  have ins: "map g (insort_key f a ys) = insort_key f (g a) (map g ys)" for ys
    by (induction ys) (simp_all add: assms)
  show ?case by (simp add: ins Cons.IH)
qed

lemma reset_tuple_simp [simp]: "reset_tuple (p, l) = (p, reset_line l)"
  by (simp add: reset_tuple_def)

lemma reset_covered_simp [simp]: "reset_covered (p, l, q) = (p, reset_line l, q)"
  by (simp add: reset_covered_def)

lemma spec_selected_reset [simp]: "spec_selected rng (reset_line l) = spec_selected rng l"
  by (simp add: spec_selected_def)

lemma selected_reset:
  "map reset_tuple (sort_key fst (map (\<lambda>l. (unit_effective_price l, l))
                                      (filter (spec_selected rng) ls)))
   = sort_key fst (map (\<lambda>l. (unit_effective_price l, l))
                      (filter (spec_selected rng) (map reset_line ls)))"
proof -
  have "map reset_tuple (sort_key fst (map (\<lambda>l. (unit_effective_price l, l))
                                      (filter (spec_selected rng) ls)))
        = sort_key fst (map reset_tuple (map (\<lambda>l. (unit_effective_price l, l))
                                      (filter (spec_selected rng) ls)))"
    by (rule map_sort_key_invariant) (simp add: reset_tuple_def)
  also have "map reset_tuple (map (\<lambda>l. (unit_effective_price l, l))
                                      (filter (spec_selected rng) ls))
        = map (\<lambda>l. (unit_effective_price l, l))
                      (filter (spec_selected rng) (map reset_line ls))"
    by (induction ls) simp_all
  finally show ?thesis .
qed

lemma get_applicable_lines_reset:
  assumes "same_lines b c" "get_applicable_lines self offer b r = Inr lts"
  shows "\<exists>lts'. get_applicable_lines self offer c r = Inr lts'
            \<and> map reset_tuple lts' = map reset_tuple lts"
proof (cases "if r = None then fee_range self else r")
  case None
  with assms(2) have "all_lines b = []"
    by (auto simp: get_applicable_lines_def applicable_loop_None split: if_splits)
  with same_lines_length [OF assms(1)] have "all_lines c = []" by simp
  with None assms(2) \<open>all_lines b = []\<close> show ?thesis
    by (auto simp: get_applicable_lines_def split: if_splits)
next
  case (Some rng)
  with assms(2) have l: "lts = sort_key fst (map (\<lambda>l. (unit_effective_price l, l))
                                      (filter (spec_selected rng) (all_lines b)))"
    by (auto simp: get_applicable_lines_def applicable_loop_filter split: if_splits)
  from Some have l': "get_applicable_lines self offer c r
      = Inr (sort_key fst (map (\<lambda>l. (unit_effective_price l, l))
                                      (filter (spec_selected rng) (all_lines c))))"
    by (auto simp: get_applicable_lines_def applicable_loop_filter split: if_splits)
  from assms(1) have "map reset_line (all_lines b) = map reset_line (all_lines c)"
    by (simp add: same_lines_def)
  then show ?thesis
    by (simp add: l l' selected_reset)
qed

lemma cover_loop_reset:
  assumes "map reset_tuple lts = map reset_tuple lts'"
    and "map reset_covered acc = map reset_covered acc'"
  shows "fst (cover_loop cov perm lts n acc) = fst (cover_loop cov perm lts' n acc')
     \<and> map reset_covered (snd (cover_loop cov perm lts n acc))
         = map reset_covered (snd (cover_loop cov perm lts' n acc'))"
  using assms
proof (induction lts arbitrary: lts' n acc acc')
  case Nil
  then show ?case by simp
next
  case (Cons t rest)
  then obtain t' rest' where lts': "lts' = t' # rest'" by (cases lts') auto
  obtain p l where t: "t = (p, l)" by (cases t) auto
  obtain p' l' where t': "t' = (p', l')" by (cases t') auto
  from Cons.prems(1) have pp: "p = p'" and r: "reset_line l = reset_line l'"
    and rest: "map reset_tuple rest = map reset_tuple rest'"
    by (simp_all add: lts' t t')
  from reset_line_fields(2) [OF r] have q: "quantity l = quantity l'" .
  define qa where "qa = (if cov then 1 else int (quantity l))"
  have acc: "map reset_covered (acc @ [(p, l, qa)]) = map reset_covered (acc' @ [(p', l', qa)])"
    using Cons.prems(2) pp r by simp
  have s1: "cover_loop cov perm (t # rest) n acc
      = (if perm \<le> n + qa then (n + qa, acc @ [(p, l, qa)])
         else cover_loop cov perm rest (n + qa) (acc @ [(p, l, qa)]))"
    by (simp add: t qa_def Let_def)
  have s2: "cover_loop cov perm (t' # rest') n acc'
      = (if perm \<le> n + qa then (n + qa, acc' @ [(p', l', qa)])
         else cover_loop cov perm rest' (n + qa) (acc' @ [(p', l', qa)]))"
    by (simp add: t' qa_def q Let_def)
  show ?case
  proof (cases "perm \<le> n + qa")
    case True
    then show ?thesis unfolding lts' s1 s2 using acc by simp
  next
    case False
    then show ?thesis unfolding lts' s1 s2 using Cons.IH [OF rest acc, of "n + qa"] by simp
  qed
qed

lemma allocate_loop_sim:
  assumes "sim D b c" "map reset_covered cs = map reset_covered cs'"
    and "line_id ll = line_id ll'"
    and "allocate_loop env fa na ll cs applied b = Inr (a', b')"
  shows "\<exists>c'. allocate_loop env fa na ll' cs' applied c = Inr (a', c')
            \<and> sim D b' c' \<and> same_lines b b'"
  using assms(1,2,4)
proof (induction cs arbitrary: cs' applied b c)
  case Nil
  then show ?case by simp
next
  case (Cons x rest)
  then obtain x' rest' where cs': "cs' = x' # rest'" by (cases cs') auto
  obtain p l q where x: "x = (p, l, q)" by (cases x) auto
  obtain p' l' q' where x': "x' = (p', l', q')" by (cases x') auto
  from Cons.prems(2) have qq: "q = q'" and r: "reset_line l = reset_line l'"
    and rest: "map reset_covered rest = map reset_covered rest'"
    by (simp_all add: cs' x x')
  from reset_line_fields(1) [OF r] have id: "line_id l = line_id l'" .
  from Cons.prems(3) obtain line_fee where
    lf: "(if line_eq l ll then Inr (fa - applied)
          else if na = 0 then Inl ZeroDivisionError
          else Inr (fee_round env ((fa * of_int q) / of_int na))) = Inr line_fee"
    and rec: "allocate_loop env fa na ll rest (applied + line_fee)
                (update_line b l (\<lambda>x. apply_fee_to_line x line_fee q)) = Inr (a', b')"
    by (auto simp: x bindE_Inr_iff)
  have le: "line_eq l ll = line_eq l' ll'"
    using id assms(3) by (simp add: line_eq_def)
  from x' qq have x'q: "x' = (p', l', q)" by simp
  from lf have lf': "(if line_eq l' ll' then Inr (fa - applied)
          else if na = 0 then Inl ZeroDivisionError
          else Inr (fee_round env ((fa * of_int q) / of_int na))) = Inr line_fee"
    unfolding le .
  note up = sim_update_line [OF Cons.prems(1) id, of line_fee q]
  from up have s1: "sim D (update_line b l (\<lambda>x. apply_fee_to_line x line_fee q))
                          (update_line c l' (\<lambda>x. apply_fee_to_line x line_fee q))"
    and same1: "same_lines b (update_line b l (\<lambda>x. apply_fee_to_line x line_fee q))"
    by simp_all
  from Cons.IH [OF s1 rest rec] obtain c' where
    c': "allocate_loop env fa na ll' rest' (applied + line_fee)
           (update_line c l' (\<lambda>x. apply_fee_to_line x line_fee q)) = Inr (a', c')"
    and s2: "sim D b' c'"
    and same2: "same_lines (update_line b l (\<lambda>x. apply_fee_to_line x line_fee q)) b'"
    by blast
  have "allocate_loop env fa na ll' cs' applied c = Inr (a', c')"
    by (simp only: cs' x'q allocate_loop.simps lf' bindE_simps c')
  with s2 same_lines_trans [OF same1 same2] show ?case by blast
qed

lemma map_eq_Nil_iff: "map f xs = map g ys \<Longrightarrow> (xs = []) = (ys = [])"
  by (cases xs; cases ys) simp_all

lemma absolute_fee_apply_sim:
  assumes "sim D b c"
    and "absolute_fee_apply env self b klass cond offer fa mt = Inr (res, b')"
  shows "\<exists>c'. absolute_fee_apply env self c klass cond offer fa mt = Inr (res, c')
            \<and> sim D b' c' \<and> same_lines b b'"
proof -
  let ?fa = "spec_effective_fee_amount self fa mt"
  let ?cov = "isinstance_oscar_coverage klass"
  let ?perm = "py_int (cond_value cond)"
  show ?thesis
  proof (cases "?fa = 0")
    case True
    with assms(2) have "res = ZERO_FEE" "b' = b"
      by (simp_all add: absolute_fee_apply_def spec_effective_fee_amount_def Let_def)
    moreover from True have
      "absolute_fee_apply env self c klass cond offer fa mt = Inr (ZERO_FEE, c)"
      by (simp add: absolute_fee_apply_def spec_effective_fee_amount_def Let_def)
    ultimately show ?thesis using assms(1) by simp
  next
    case False
    from assms(2) False obtain lts where
      lts: "get_applicable_lines self offer b (cond_range cond) = Inr lts"
      by (auto simp: absolute_fee_apply_def spec_effective_fee_amount_def Let_def
            bindE_Inr_iff)
    from assms(1) have sl: "same_lines b c" by (simp add: sim_def)
    from get_applicable_lines_reset [OF sl lts] obtain lts' where
      lts': "get_applicable_lines self offer c (cond_range cond) = Inr lts'"
      and eq: "map reset_tuple lts' = map reset_tuple lts"
      by blast
    show ?thesis
    proof (cases "lts = []")
      case True
      with eq have "lts' = []" by simp
      with True False lts lts' assms show ?thesis
        by (simp add: absolute_fee_apply_def spec_effective_fee_amount_def Let_def)
    next
      case ne: False
      with map_eq_Nil_iff [OF eq] have ne': "lts' \<noteq> []" by simp
      obtain n cs where cv: "cover_loop ?cov ?perm lts 0 [] = (n, cs)"
        by (cases "cover_loop ?cov ?perm lts 0 []") auto
      obtain n' cs' where cv': "cover_loop ?cov ?perm lts' 0 [] = (n', cs')"
        by (cases "cover_loop ?cov ?perm lts' 0 []") auto
      from cover_loop_reset [OF eq, of "[]" "[]" ?cov ?perm 0] cv cv'
      have nn: "n' = n" and ce: "map reset_covered cs' = map reset_covered cs"
        by simp_all
      from assms(2) False lts ne cv obtain a1 b1 where
        cne: "cs \<noteq> []"
        and al: "allocate_loop env ?fa n (fst (snd (last cs))) cs 0 b = Inr (a1, b1)"
        and res: "res = BasketFee ?fa" "b' = apply_fee_to_basket b1 self ?fa 1"
        by (auto simp: absolute_fee_apply_def spec_effective_fee_amount_def Let_def
              bindE_Inr_iff py_last_def split_beta split: if_splits)
      from map_eq_Nil_iff [OF ce] cne have cne': "cs' \<noteq> []" by simp
      have "reset_covered (last cs') = reset_covered (last cs)"
        using ce cne cne' by (metis last_map)
      then have "reset_line (fst (snd (last cs'))) = reset_line (fst (snd (last cs)))"
        by (simp add: reset_covered_def)
      then have lid: "line_id (fst (snd (last cs))) = line_id (fst (snd (last cs')))"
        by (rule reset_line_fields(1) [symmetric])
      from allocate_loop_sim [OF assms(1) ce [symmetric] lid al] obtain c1 where
        al': "allocate_loop env ?fa n (fst (snd (last cs'))) cs' 0 c = Inr (a1, c1)"
        and s1: "sim D b1 c1" and same1: "same_lines b b1"
        by blast
      have run: "absolute_fee_apply env self c klass cond offer fa mt
                   = Inr (BasketFee ?fa, apply_fee_to_basket c1 self ?fa 1)"
        using False lts' ne' cv' cne' al' nn
        by (simp add: absolute_fee_apply_def spec_effective_fee_amount_def Let_def
              py_last_def split_beta)
      from sim_apply_fee_to_basket [OF s1, of self ?fa 1]
      have "sim D b' (apply_fee_to_basket c1 self ?fa 1)" "same_lines b1 b'"
        by (simp_all add: res)
      with run res same1 show ?thesis
        by (auto intro: same_lines_trans)
    qed
  qed
qed

lemma apply_fee_sim:
  assumes "annotation_blind env" "sim D b c" "apply_fee env f b = Inr (res, b')"
  shows "\<exists>c'. apply_fee env f c = Inr (res, c') \<and> sim D b' c' \<and> same_lines b b'"
proof -
  from assms(2) have sl: "same_lines b c" by (simp add: sim_def)
  with assms(1) have sat: "is_condition_satisfied env f c = is_condition_satisfied env f b"
    by (auto simp: is_condition_satisfied_def annotation_blind_def bindE_def
        split: sum.splits)
  show ?thesis
  proof (cases "is_condition_satisfied env f b = Inr True")
    case False
    from assms(3) obtain v where v: "is_condition_satisfied env f b = Inr v"
      by (auto simp: apply_fee_def bindE_Inr_iff)
    with False have nv: "\<not> v" by simp
    with assms(3) v have "res = ZERO_FEE" "b' = b"
      by (simp_all add: apply_fee_def)
    moreover from v nv have "apply_fee env f c = Inr (ZERO_FEE, c)"
      by (simp add: apply_fee_def sat)
    ultimately show ?thesis using assms(2) by simp
  next
    case True
    with assms(3) obtain fklass klass where
      fk: "fee_proxy (fee f) = Inr fklass" and ck: "condition_proxy (condition f) = Inr klass"
      and r: "(case fklass of
                 PercentageFee \<Rightarrow>
                   percentage_fee_apply env (fee f) b klass (condition f) f
               | AbsoluteFee \<Rightarrow>
                   absolute_fee_apply env (fee f) b klass (condition f) f None None)
              = Inr (res, b')"
      by (auto simp: apply_fee_def bindE_Inr_iff)
    from r have fa: "fklass = AbsoluteFee"
      by (cases fklass) (simp_all add: percentage_fee_apply_def)
    with r have
      ab: "absolute_fee_apply env (fee f) b klass (condition f) f None None = Inr (res, b')"
      by simp
    from absolute_fee_apply_sim [OF assms(2) ab] obtain c' where
      "absolute_fee_apply env (fee f) c klass (condition f) f None None = Inr (res, c')"
      "sim D b' c'" "same_lines b b'"
      by blast
    with True fk ck fa show ?thesis
      by (simp add: apply_fee_def sat)
  qed
qed

lemma sim_owner: "sim D b c \<Longrightarrow> owner b = owner c"
  by (simp add: sim_def same_lines_def)

lemma sim_total_test:
  "sim D b c \<Longrightarrow> sim D (b\<lparr>total_test := t\<rparr>) (c\<lparr>total_test := t'\<rparr>)
     \<and> same_lines b (b\<lparr>total_test := t\<rparr>)"
  by (simp add: sim_def same_lines_def)

lemma apply_loop_sim:
  assumes "annotation_blind env" "sim D b c"
    and "apply_loop env f n b apps = Inr (n', b', apps')"
  shows "\<exists>c'. apply_loop env f n c apps = Inr (n', c', apps') \<and> sim D b' c'
            \<and> same_lines b b'"
  using assms
proof (induction env f n b apps arbitrary: c n' b' apps' rule: apply_loop.induct)
  case (1 env f n b apps)
  note blind = "1.prems"(1)
  from "1.prems"(3) obtain m where m: "get_max_applications f (owner b) = Inr m"
    by (elim apply_loop_Inr_cases) auto
  from sim_owner [OF "1.prems"(2)] m have mc: "get_max_applications f (owner c) = Inr m"
    by simp
  show ?case
  proof (cases "n < m")
    case False
    with "1.prems"(3) m have "n' = n" "b' = b" "apps' = apps"
      by (simp_all add: apply_loop_stop)
    with False mc "1.prems"(2) show ?thesis
      by (simp add: apply_loop_stop)
  next
    case True
    from "1.prems"(3) m True obtain res b1 where af: "apply_fee env f b = Inr (res, b1)"
      by (elim apply_loop_Inr_cases) auto
    from apply_fee_sim [OF blind "1.prems"(2) af] obtain c1 where
      afc: "apply_fee env f c = Inr (res, c1)" and s1: "sim D b1 c1"
      and same1: "same_lines b b1"
      by blast
    note step = apply_loop_step [OF m True af, of apps]
    note stepc = apply_loop_step [OF mc True afc, of apps]
    show ?thesis
    proof (cases "is_successful res")
      case False
      with "1.prems"(3) step have "n' = n + 1" "b' = b1" "apps' = apps" by simp_all
      with False stepc s1 same1 show ?thesis by simp
    next
      case succ: True
      let ?b2 = "b1\<lparr>total_test := total_test b1 + 1\<rparr>"
      let ?c2 = "c1\<lparr>total_test := total_test c1 + 1\<rparr>"
      let ?apps2 = "add apps f res"
      from sim_total_test [OF s1] have s2: "sim D ?b2 ?c2" and same2: "same_lines b1 ?b2"
        by simp_all
      show ?thesis
      proof (cases "is_final res")
        case True
        with "1.prems"(3) step succ have "n' = n + 1" "b' = ?b2" "apps' = ?apps2"
          by simp_all
        with True succ stepc s2 same_lines_trans [OF same1 same2] show ?thesis by simp
      next
        case False
        with "1.prems"(3) step succ have
          rec: "apply_loop env f (n + 1) ?b2 ?apps2 = Inr (n', b', apps')" by simp
        from succ have nn: "\<not> \<not> is_successful res" by simp
        from "1.IH" [OF m \<open>n < m\<close> af refl refl nn refl refl False blind s2 rec]
        obtain c' where
          "apply_loop env f (n + 1) ?c2 ?apps2 = Inr (n', c', apps')" "sim D b' c'"
          "same_lines ?b2 b'"
          by blast
        with False succ stepc same_lines_trans [OF same_lines_trans [OF same1 same2]]
        show ?thesis by auto
      qed
    qed
  qed
qed

lemma apply_fees_loop_sim:
  assumes "annotation_blind env" "sim D b c"
    and "apply_fees_loop env fees b apps = Inr (b', apps')"
  shows "\<exists>c'. apply_fees_loop env fees c apps = Inr (c', apps') \<and> sim D b' c'
            \<and> same_lines b b'"
  using assms(2,3)
proof (induction fees arbitrary: b c apps)
  case Nil
  then show ?case by auto
next
  case (Cons f fees)
  from Cons.prems(2) obtain n1 b1 apps1 where
    l: "apply_loop env f 0 b apps = Inr (n1, b1, apps1)"
    and r: "apply_fees_loop env fees b1 apps1 = Inr (b', apps')"
    by (auto simp: bindE_Inr_iff)
  from apply_loop_sim [OF assms(1) Cons.prems(1) l] obtain c1 where
    lc: "apply_loop env f 0 c apps = Inr (n1, c1, apps1)" and s1: "sim D b1 c1"
    and same1: "same_lines b b1"
    by blast
  from Cons.IH [OF s1 r] obtain c' where
    "apply_fees_loop env fees c1 apps1 = Inr (c', apps')" "sim D b' c'" "same_lines b1 b'"
    by blast
  with lc same1 show ?case
    by (auto intro: same_lines_trans)
qed

lemma apply_fees_sim:
  assumes "annotation_blind env" "sim D b c" "apply_fees env b fees = Inr b'"
  shows "\<exists>c'. apply_fees env c fees = Inr c' \<and> sim D b' c' \<and> same_lines b b'
            \<and> fee_applications c' = fee_applications b'"
proof -
  from assms(3) obtain b1 apps where
    r: "apply_fees_loop env fees b [] = Inr (b1, apps)"
    and b': "b' = b1\<lparr>fee_applications := Some apps\<rparr>"
    by (auto simp: apply_fees_def bindE_Inr_iff)
  from apply_fees_loop_sim [OF assms(1,2) r] obtain c1 where
    "apply_fees_loop env fees c [] = Inr (c1, apps)" "sim D b1 c1" "same_lines b b1"
    by blast
  then show ?thesis
    by (simp add: apply_fees_def b' sim_def same_lines_def)
qed

subsection \<open>Two passes over the example basket\<close>

lemma example_first_pass:
  "apply_fees example_env example_basket [example_rule] = Inr example_basket_once"
  by (simp add: example_apply_fees example_basket_once_def example_ledger_def)

lemma example_floor: "\<lfloor>125 / 2 :: rat\<rfloor> = 62"
  by (simp add: floor_eq_iff)

lemma example_second_apply_fee:
  "apply_fee example_env example_rule example_basket_once
     = Inr (BasketFee 1,
            example_basket_twice\<lparr>total_test := 1\<rparr>)"
  by (simp add: py_int_def line_a_def line_b_def example_basket_def example_env_def
        example_rule_def apply_fee_def is_condition_satisfied_def condition_proxy_def
        fee_proxy_def absolute_fee_apply_def get_applicable_lines_def py_last_def
        update_line_def apply_fee_to_line_def apply_fee_to_basket_def line_eq_def
        fee_round_def quantize_round_down_def Let_def example_basket_after_def example_floor
        example_basket_once_def example_basket_twice_def example_ledger_def)

lemma example_second_pass:
  "apply_fees example_env example_basket_once [example_rule] = Inr example_basket_twice"
proof -
  have m: "get_max_applications example_rule (owner example_basket_once) = Inr 10000"
    by (simp add: get_max_applications_def example_rule_def truthy_nat_def truthy_money_def
          Let_def)
  have l: "apply_loop example_env example_rule 0 example_basket_once []
     = Inr (1, example_basket_twice\<lparr>total_test := 2\<rparr>, example_ledger)"
    by (subst apply_loop_step [OF m _ example_second_apply_fee])
       (simp_all add: add_def example_rule_def example_ledger_def Let_def)
  show ?thesis
    by (simp add: apply_fees_def l example_basket_twice_def)
qed


lemma map2_nth_eq:
  assumes "map2 f xs ys = map2 f xs' ys'" "length xs = length ys" "length xs' = length ys'"
    and "length xs = length xs'" "j < length xs"
  shows "f (xs ! j) (ys ! j) = f (xs' ! j) (ys' ! j)"
proof -
  have "map2 f xs ys ! j = f (xs ! j) (ys ! j)"
    using assms(2,5) by simp
  moreover have "map2 f xs' ys' ! j = f (xs' ! j) (ys' ! j)"
    using assms(3,4,5) by simp
  ultimately show ?thesis using assms(1) by simp
qed

lemma sim_offsets:
  assumes "sim D b c" "sim D b' c'" "same_lines b b'" "j < length (all_lines b)"
  shows "line_offset (all_lines b' ! j) (all_lines c' ! j)
           = line_offset (all_lines b ! j) (all_lines c ! j)"
proof -
  from assms(1) have l1: "length (all_lines b) = length (all_lines c)"
    by (simp add: sim_def same_lines_length)
  from assms(2) have l2: "length (all_lines b') = length (all_lines c')"
    by (simp add: sim_def same_lines_length)
  from assms(3) have l3: "length (all_lines b) = length (all_lines b')"
    by (rule same_lines_length)
  from assms(1,2) have "map2 line_offset (all_lines b') (all_lines c')
                          = map2 line_offset (all_lines b) (all_lines c)"
    by (simp add: sim_def)
  then show ?thesis
    using l1 l2 l3 assms(4) by (intro map2_nth_eq) simp_all
qed

lemma same_lines_reset_lines: "same_lines b (reset_lines b)"
  by (simp add: same_lines_def reset_lines_def comp_def)

lemma line_fee_reset_line [simp]:
  "line_fee_amount (reset_line x) = 0" "line_fee_quantity (reset_line x) = 0"
  by (simp_all add: line_fee_amount_def line_fee_quantity_def reset_line_def)

text \<open>
  C9 (as amended). A pass does not reset the fee annotations of the lines: it changes
  nothing of a line but its annotations, and it adds to them. For a condition test that
  does not read the annotations, each line's amount and quantity after the pass are those
  it carried before plus those the same pass assigns on the basket with reset
  annotations; so they reflect only that pass's applications when the lines carried none
  before. Evaluating the basket a second time succeeds with the same ledger and adds the
  same amounts and quantities once more.
\<close>

theorem apply_fees_accumulates:
  assumes blind: "annotation_blind env"
    and pass: "apply_fees env b fees = Inr b1"
  shows "same_lines b b1
     \<and> (\<exists>c1. apply_fees env (reset_lines b) fees = Inr c1
           \<and> fee_applications c1 = fee_applications b1
           \<and> (\<forall>j < length (all_lines b).
                 line_fee_amount (all_lines b1 ! j)
                   = line_fee_amount (all_lines b ! j) + line_fee_amount (all_lines c1 ! j)
               \<and> line_fee_quantity (all_lines b1 ! j)
                   = line_fee_quantity (all_lines b ! j)
                     + line_fee_quantity (all_lines c1 ! j)))
     \<and> (\<exists>b2. apply_fees env b1 fees = Inr b2
           \<and> fee_applications b2 = fee_applications b1
           \<and> (\<forall>j < length (all_lines b).
                 line_fee_amount (all_lines b2 ! j)
                   = line_fee_amount (all_lines b1 ! j)
                     + (line_fee_amount (all_lines b1 ! j) - line_fee_amount (all_lines b ! j))
               \<and> line_fee_quantity (all_lines b2 ! j)
                   = line_fee_quantity (all_lines b1 ! j)
                     + (line_fee_quantity (all_lines b1 ! j)
                        - line_fee_quantity (all_lines b ! j))))"
proof (intro conjI)
  let ?r = "reset_lines b"
  let ?D = "map2 line_offset (all_lines b) (all_lines ?r)"
  have s0: "sim ?D b ?r"
    by (simp add: sim_def same_lines_reset_lines)
  from apply_fees_sim [OF blind s0 pass] obtain c1 where
    c1: "apply_fees env ?r fees = Inr c1" and s1: "sim ?D b1 c1"
    and same: "same_lines b b1" and led: "fee_applications c1 = fee_applications b1"
    by blast
  show "same_lines b b1" by (rule same)
  have "line_fee_amount (all_lines b1 ! j)
          = line_fee_amount (all_lines b ! j) + line_fee_amount (all_lines c1 ! j)
        \<and> line_fee_quantity (all_lines b1 ! j)
          = line_fee_quantity (all_lines b ! j) + line_fee_quantity (all_lines c1 ! j)"
    if j: "j < length (all_lines b)" for j
  proof -
    from sim_offsets [OF s0 s1 same j]
    have "line_offset (all_lines b1 ! j) (all_lines c1 ! j)
            = line_offset (all_lines b ! j) (reset_line (all_lines b ! j))"
      using j by (simp add: reset_lines_def)
    then show ?thesis
      by (simp add: line_offset_def)
  qed
  with c1 led show "\<exists>c1. apply_fees env (reset_lines b) fees = Inr c1
           \<and> fee_applications c1 = fee_applications b1
           \<and> (\<forall>j < length (all_lines b).
                 line_fee_amount (all_lines b1 ! j)
                   = line_fee_amount (all_lines b ! j) + line_fee_amount (all_lines c1 ! j)
               \<and> line_fee_quantity (all_lines b1 ! j)
                   = line_fee_quantity (all_lines b ! j)
                     + line_fee_quantity (all_lines c1 ! j))"
    by blast
  let ?E = "map2 line_offset (all_lines b) (all_lines b1)"
  have t0: "sim ?E b b1"
    by (simp add: sim_def same)
  from apply_fees_sim [OF blind t0 pass] obtain b2 where
    b2: "apply_fees env b1 fees = Inr b2" and t1: "sim ?E b1 b2"
    and led2: "fee_applications b2 = fee_applications b1"
    by blast
  have "line_fee_amount (all_lines b2 ! j)
          = line_fee_amount (all_lines b1 ! j)
            + (line_fee_amount (all_lines b1 ! j) - line_fee_amount (all_lines b ! j))
        \<and> line_fee_quantity (all_lines b2 ! j)
          = line_fee_quantity (all_lines b1 ! j)
            + (line_fee_quantity (all_lines b1 ! j) - line_fee_quantity (all_lines b ! j))"
    if j: "j < length (all_lines b)" for j
  proof -
    from sim_offsets [OF t0 t1 same j]
    have "line_offset (all_lines b1 ! j) (all_lines b2 ! j)
            = line_offset (all_lines b ! j) (all_lines b1 ! j)" .
    then show ?thesis
      by (simp add: line_offset_def)
  qed
  with b2 led2 show "\<exists>b2. apply_fees env b1 fees = Inr b2
           \<and> fee_applications b2 = fee_applications b1
           \<and> (\<forall>j < length (all_lines b).
                 line_fee_amount (all_lines b2 ! j)
                   = line_fee_amount (all_lines b1 ! j)
                     + (line_fee_amount (all_lines b1 ! j) - line_fee_amount (all_lines b ! j))
               \<and> line_fee_quantity (all_lines b2 ! j)
                   = line_fee_quantity (all_lines b1 ! j)
                     + (line_fee_quantity (all_lines b1 ! j)
                        - line_fee_quantity (all_lines b ! j)))"
    by blast
qed

theorem apply_fees_accumulates_witness:
  "annotation_blind example_env
   \<and> apply_fees example_env example_basket [example_rule] = Inr example_basket_once
   \<and> same_lines example_basket example_basket_once
   \<and> (\<exists>c1. apply_fees example_env (reset_lines example_basket) [example_rule] = Inr c1
         \<and> fee_applications c1 = Some example_ledger
         \<and> line_fee_amount (all_lines c1 ! 0) = 19 / 50
         \<and> line_fee_amount (all_lines c1 ! 1) = 31 / 50
         \<and> line_fee_quantity (all_lines c1 ! 0) = 3
         \<and> line_fee_quantity (all_lines c1 ! 1) = 5)
   \<and> (\<exists>b2. apply_fees example_env example_basket_once [example_rule] = Inr b2
         \<and> fee_applications b2 = Some example_ledger
         \<and> line_fee_amount (all_lines b2 ! 0) = 19 / 25
         \<and> line_fee_amount (all_lines b2 ! 1) = 31 / 25
         \<and> line_fee_quantity (all_lines b2 ! 0) = 6
         \<and> line_fee_quantity (all_lines b2 ! 1) = 10)"
proof -
  have bl: "annotation_blind example_env"
    by (simp add: annotation_blind_def example_env_def)
  have v: "line_fee_amount (all_lines example_basket ! 0) = 0"
      "line_fee_amount (all_lines example_basket ! Suc 0) = 0"
      "line_fee_quantity (all_lines example_basket ! 0) = 0"
      "line_fee_quantity (all_lines example_basket ! Suc 0) = 0"
      "line_fee_amount (all_lines example_basket_once ! 0) = 19 / 50"
      "line_fee_amount (all_lines example_basket_once ! Suc 0) = 31 / 50"
      "line_fee_quantity (all_lines example_basket_once ! 0) = 3"
      "line_fee_quantity (all_lines example_basket_once ! Suc 0) = 5"
      "length (all_lines example_basket) = 2"
      "fee_applications example_basket_once = Some example_ledger"
    by (simp_all add: example_basket_def example_basket_once_def example_basket_after_def
          line_a_def line_b_def line_fee_amount_def line_fee_quantity_def)
  note acc = apply_fees_accumulates [OF bl example_first_pass]
  from acc have same: "same_lines example_basket example_basket_once"
    by blast
  from acc obtain c1 where
    c1: "apply_fees example_env (reset_lines example_basket) [example_rule] = Inr c1"
    and led1: "fee_applications c1 = fee_applications example_basket_once"
    and sum: "\<forall>j < length (all_lines example_basket).
                 line_fee_amount (all_lines example_basket_once ! j)
                   = line_fee_amount (all_lines example_basket ! j)
                     + line_fee_amount (all_lines c1 ! j)
               \<and> line_fee_quantity (all_lines example_basket_once ! j)
                   = line_fee_quantity (all_lines example_basket ! j)
                     + line_fee_quantity (all_lines c1 ! j)"
    by blast
  from sum [rule_format, of 0] sum [rule_format, of "Suc 0"]
  have w1: "line_fee_amount (all_lines c1 ! 0) = 19 / 50"
       "line_fee_amount (all_lines c1 ! Suc 0) = 31 / 50"
       "line_fee_quantity (all_lines c1 ! 0) = 3"
       "line_fee_quantity (all_lines c1 ! Suc 0) = 5"
    by (simp_all add: v)
  from acc obtain b2 where
    b2: "apply_fees example_env example_basket_once [example_rule] = Inr b2"
    and led2: "fee_applications b2 = fee_applications example_basket_once"
    and inc: "\<forall>j < length (all_lines example_basket).
                 line_fee_amount (all_lines b2 ! j)
                   = line_fee_amount (all_lines example_basket_once ! j)
                     + (line_fee_amount (all_lines example_basket_once ! j)
                        - line_fee_amount (all_lines example_basket ! j))
               \<and> line_fee_quantity (all_lines b2 ! j)
                   = line_fee_quantity (all_lines example_basket_once ! j)
                     + (line_fee_quantity (all_lines example_basket_once ! j)
                        - line_fee_quantity (all_lines example_basket ! j))"
    by blast
  from inc [rule_format, of 0] inc [rule_format, of "Suc 0"]
  have w2: "line_fee_amount (all_lines b2 ! 0) = 19 / 25"
       "line_fee_amount (all_lines b2 ! Suc 0) = 31 / 25"
       "line_fee_quantity (all_lines b2 ! 0) = 6"
       "line_fee_quantity (all_lines b2 ! Suc 0) = 10"
    by (simp_all add: v)
  have e1: "\<exists>c1. apply_fees example_env (reset_lines example_basket) [example_rule] = Inr c1
         \<and> fee_applications c1 = Some example_ledger
         \<and> line_fee_amount (all_lines c1 ! 0) = 19 / 50
         \<and> line_fee_amount (all_lines c1 ! 1) = 31 / 50
         \<and> line_fee_quantity (all_lines c1 ! 0) = 3
         \<and> line_fee_quantity (all_lines c1 ! 1) = 5"
    using c1 led1 w1 v(10) by auto
  have e2: "\<exists>b2. apply_fees example_env example_basket_once [example_rule] = Inr b2
         \<and> fee_applications b2 = Some example_ledger
         \<and> line_fee_amount (all_lines b2 ! 0) = 19 / 25
         \<and> line_fee_amount (all_lines b2 ! 1) = 31 / 25
         \<and> line_fee_quantity (all_lines b2 ! 0) = 6
         \<and> line_fee_quantity (all_lines b2 ! 1) = 10"
    using b2 led2 w2 v(10) by auto
  from bl example_first_pass same e1 e2 show ?thesis
    by (intro conjI)
qed

text \<open>
  The claim as first stated fails: a second pass over the example basket does not reset
  the annotations of the first, it doubles them.
\<close>

theorem apply_fees_accumulates_counterexample:
  "apply_fees example_env example_basket [example_rule] = Inr example_basket_once
   \<and> apply_fees example_env example_basket_once [example_rule] = Inr example_basket_twice
   \<and> map attr_fee_amount (all_lines example_basket_once) = [Some (19 / 50), Some (31 / 50)]
   \<and> map attr_fee_amount (all_lines example_basket_twice) = [Some (19 / 25), Some (31 / 25)]
   \<and> map attr_fee_quantity (all_lines example_basket_once) = [Some 3, Some 5]
   \<and> map attr_fee_quantity (all_lines example_basket_twice) = [Some 6, Some 10]"
proof (intro conjI)
  show "apply_fees example_env example_basket [example_rule] = Inr example_basket_once"
    by (rule example_first_pass)
  show "apply_fees example_env example_basket_once [example_rule] = Inr example_basket_twice"
    by (rule example_second_pass)
qed (simp_all add: example_basket_once_def example_basket_after_def
       example_basket_twice_def example_basket_def line_a_def line_b_def)

end
